theory Spec2Isabelle
  imports Main "HOL-Library.Word"
begin

unbundle bit_operations_syntax

section \<open>Data model of \<open>render3/query.ts\<close>\<close>

text \<open>
  Values that a query can read from a node. The source types them \<open>any\<close>; what the code
  distinguishes is \<open>null\<close> (\<open>result !== null\<close>), \<open>undefined\<close> (an array read out of
  range) and everything else, an opaque object without a \<open>length\<close> property.
\<close>

datatype jsval = Null | Undefined | Obj nat

text \<open>
  Modelled from the spec: \<open>assertEqual\<close> and \<open>assertNotNull\<close> of \<open>./assert\<close>, whose
  violation aborts the current operation with an assertion failure; the source calls them
  only under \<open>ngDevMode\<close>. \<open>TypeError\<close> is what reading a property of \<open>undefined\<close> or
  \<open>null\<close> throws.
\<close>

datatype error = AssertionError | TypeError

type_synonym addr = nat

text \<open>
  An element of a \<open>values\<close> array (\<open>any[]\<close>): a matched value, or a nested array that
  \<open>container()\<close> or \<open>enterView()\<close> stored there. Arrays are shared by reference between
  predicates, so a nested array is held by its address in the store.
\<close>

datatype item = Val jsval | Ref addr

type_synonym Type = nat

type_synonym LInjector = nat

text \<open>An element of \<open>TNode.localNames\<close>, a flat array of name and index pairs.\<close>

datatype lname = LStr string | LNum int

record DirectiveDef =
  diPublic :: bool
  def_type :: Type

record TNode =
  localNames :: "lname list option"

text \<open>
  The parts of an \<open>LNode\<close> that the query code reads: \<open>flags\<close>, \<open>view.tView.data\<close>
  (field \<open>tData\<close>), \<open>view.data\<close> (field \<open>data\<close>), \<open>tNode\<close> and the injector that
  \<open>getOrCreateNodeInjectorForNode\<close> gives for the node.
\<close>

record LNode =
  flags :: "32 word"
  tData :: "DirectiveDef list"
  data :: "jsval list"
  tNode :: "TNode option"
  nodeInjector :: LInjector

text \<open>
  \<open>QueryReadType<T> | Type<T>\<close>: an instance of \<open>ReadFromInjectorFn\<close>, holding its
  \<open>read\<close> function, or a type token. The directive index handed to \<open>read\<close> is a
  number, an entry of \<open>localNames\<close>, or \<open>undefined\<close> (\<open>None\<close>).
\<close>

datatype read =
  ReadFromInjectorFn "LInjector \<Rightarrow> LNode \<Rightarrow> lname option \<Rightarrow> jsval"
| ReadType Type

text \<open>
  \<open>QueryPredicate\<close>. The field \<open>next\<close> is the tail of the list that holds the
  predicate: a chain is never changed after it is built, only a new head is put in front.
  \<open>pred_list\<close> is the address of the \<open>QueryList_\<close>, \<open>pred_values\<close> the address of the
  array \<open>values\<close>.
\<close>

record QueryPredicate =
  pred_list :: addr
  pred_type :: "Type option"
  pred_selector :: "string list option"
  pred_read :: "read option"
  pred_values :: addr

text \<open>
  \<open>QueryList_\<close>: \<open>dirty\<close>, the number of emissions on \<open>changes\<close>, \<open>_values\<close> and the
  address of \<open>_valuesTree\<close>.
\<close>

record QueryList =
  dirty :: bool
  changes :: nat
  ql_values :: "jsval list"
  ql_valuesTree :: addr

record LQueries =
  shallow :: "QueryPredicate list"
  deep :: "QueryPredicate list"

text \<open>
  The store: arrays, query lists and trackers live at addresses, handed out in increasing
  order by \<open>new\<close> and by array literals.
\<close>

record heap =
  arrays :: "addr \<Rightarrow> item list"
  next_array :: addr
  lists :: "addr \<Rightarrow> QueryList"
  next_list :: addr
  trackers :: "addr \<Rightarrow> LQueries"
  next_tracker :: addr

text \<open>
  The build mode and the constants of \<open>LNodeFlags\<close>, which \<open>interfaces/node\<close> declares.
\<close>

record env =
  ngDevMode :: bool
  INDX_SHIFT :: nat
  SIZE_MASK :: "32 word"
  SIZE_SHIFT :: nat

datatype predicate_arg = ByType Type | BySelector "string list"

section \<open>Allocation\<close>

definition new_array :: "heap \<Rightarrow> addr \<times> heap" where
  "new_array h =
     (next_array h, h\<lparr>arrays := (arrays h)(next_array h := []), next_array := Suc (next_array h)\<rparr>)"

text \<open>\<open>new QueryList_()\<close>: \<open>dirty = true\<close>, no emission, \<open>_values = []\<close>, \<open>_valuesTree = []\<close>.\<close>

definition new_QueryList :: "heap \<Rightarrow> addr \<times> heap" where
  "new_QueryList h =
     (case new_array h of (a, h1) \<Rightarrow>
        (next_list h1,
         h1\<lparr>lists := (lists h1)(next_list h1 :=
                \<lparr>dirty = True, changes = 0, ql_values = [], ql_valuesTree = a\<rparr>),
            next_list := Suc (next_list h1)\<rparr>))"

text \<open>\<open>new LQueries_(deep)\<close>: \<open>shallow = null\<close>, \<open>deep\<close> as given.\<close>

definition new_LQueries :: "QueryPredicate list \<Rightarrow> heap \<Rightarrow> addr \<times> heap" where
  "new_LQueries d h =
     (next_tracker h,
      h\<lparr>trackers := (trackers h)(next_tracker h := \<lparr>shallow = [], deep = d\<rparr>),
        next_tracker := Suc (next_tracker h)\<rparr>)"

section \<open>QueryList\<close>

definition setDirty :: "addr \<Rightarrow> heap \<Rightarrow> heap" where
  "setDirty l h = h\<lparr>lists := (lists h)(l := (lists h l)\<lparr>dirty := True\<rparr>)\<rparr>"

definition notifyOnChanges :: "addr \<Rightarrow> heap \<Rightarrow> heap" where
  "notifyOnChanges l h =
     h\<lparr>lists := (lists h)(l := (lists h l)\<lparr>changes := Suc (changes (lists h l))\<rparr>)\<rparr>"

definition first :: "QueryList \<Rightarrow> jsval" where
  "first q = (let values = ql_values q in if length values \<noteq> 0 then values ! 0 else Null)"

definition last_q :: "QueryList \<Rightarrow> jsval" where
  "last_q q =
     (let values = ql_values q in
      if length values \<noteq> 0 then values ! (length values - 1) else Null)"

section \<open>Trackers\<close>

definition createPredicate ::
  "QueryPredicate list \<Rightarrow> addr \<Rightarrow> predicate_arg \<Rightarrow> read option \<Rightarrow> heap \<Rightarrow> QueryPredicate list"
where
  "createPredicate previous queryList predicate rd h =
     \<lparr>pred_list = queryList,
      pred_type = (case predicate of ByType t \<Rightarrow> Some t | BySelector s \<Rightarrow> None),
      pred_selector = (case predicate of ByType t \<Rightarrow> None | BySelector s \<Rightarrow> Some s),
      pred_read = rd,
      pred_values = ql_valuesTree (lists h queryList)\<rparr> # previous"

definition track ::
  "addr \<Rightarrow> addr \<Rightarrow> predicate_arg \<Rightarrow> bool \<Rightarrow> read option \<Rightarrow> heap \<Rightarrow> heap"
where
  "track this queryList predicate descend rd h =
     (let q = trackers h this in
      if descend
      then h\<lparr>trackers := (trackers h)(this :=
                q\<lparr>deep := createPredicate (deep q) queryList predicate rd h\<rparr>)\<rparr>
      else h\<lparr>trackers := (trackers h)(this :=
                q\<lparr>shallow := createPredicate (shallow q) queryList predicate rd h\<rparr>)\<rparr>)"

definition child :: "addr \<Rightarrow> heap \<Rightarrow> addr option \<times> heap" where
  "child this h =
     (if deep (trackers h this) = [] then (None, h)
      else if shallow (trackers h this) = [] then (Some this, h)
      else (case new_LQueries (deep (trackers h this)) h of (t, h') \<Rightarrow> (Some t, h')))"

text \<open>
  \<open>Array.prototype.splice(index, ...)\<close> on an array of length \<open>len\<close> starts at
  \<open>max (len + index) 0\<close> for a negative \<open>index\<close> and at \<open>min index len\<close> otherwise.
\<close>

definition splice_start :: "int \<Rightarrow> nat \<Rightarrow> nat" where
  "splice_start index len =
     (if index < 0 then nat (max (int len + index) 0) else min (nat index) len)"

text \<open>\<open>xs.splice(index, 0, x)\<close>: the array afterwards.\<close>

definition splice_insert :: "int \<Rightarrow> 'a \<Rightarrow> 'a list \<Rightarrow> 'a list" where
  "splice_insert index x xs =
     (let s = splice_start index (length xs) in take s xs @ [x] @ drop s xs)"

text \<open>\<open>xs.splice(index, 1)\<close>: the removed elements and the array afterwards.\<close>

definition splice_remove :: "int \<Rightarrow> 'a list \<Rightarrow> 'a list \<times> 'a list" where
  "splice_remove index xs =
     (let s = splice_start index (length xs) in (take 1 (drop s xs), take s xs @ drop (Suc s) xs))"

fun container_loop ::
  "QueryPredicate list \<Rightarrow> QueryPredicate list \<Rightarrow> heap \<Rightarrow> QueryPredicate list \<times> heap"
where
  "container_loop [] result h = (result, h)"
| "container_loop (predicate # rest) result h =
     (case new_array h of (containerValues, h1) \<Rightarrow>
        let h2 = h1\<lparr>arrays := (arrays h1)(pred_values predicate :=
                       arrays h1 (pred_values predicate) @ [Ref containerValues])\<rparr>;
            clonedPredicate =
              \<lparr>pred_list = pred_list predicate,
               pred_type = pred_type predicate,
               pred_selector = pred_selector predicate,
               pred_read = pred_read predicate,
               pred_values = containerValues\<rparr>
        in container_loop rest (clonedPredicate # result) h2)"

definition container :: "addr \<Rightarrow> heap \<Rightarrow> addr option \<times> heap" where
  "container this h =
     (case container_loop (deep (trackers h this)) [] h of (result, h') \<Rightarrow>
        if result \<noteq> [] then (case new_LQueries result h' of (t, h'') \<Rightarrow> (Some t, h''))
        else (None, h'))"

fun enterView_loop ::
  "QueryPredicate list \<Rightarrow> int \<Rightarrow> QueryPredicate list \<Rightarrow> heap \<Rightarrow> QueryPredicate list \<times> heap"
where
  "enterView_loop [] index result h = (result, h)"
| "enterView_loop (predicate # rest) index result h =
     (case new_array h of (viewValues, h1) \<Rightarrow>
        let h2 = h1\<lparr>arrays := (arrays h1)(pred_values predicate :=
                       splice_insert index (Ref viewValues) (arrays h1 (pred_values predicate)))\<rparr>;
            clonedPredicate =
              \<lparr>pred_list = pred_list predicate,
               pred_type = pred_type predicate,
               pred_selector = pred_selector predicate,
               pred_read = pred_read predicate,
               pred_values = viewValues\<rparr>
        in enterView_loop rest index (clonedPredicate # result) h2)"

definition enterView :: "addr \<Rightarrow> int \<Rightarrow> heap \<Rightarrow> addr option \<times> heap" where
  "enterView this index h =
     (case enterView_loop (deep (trackers h this)) index [] h of (result, h') \<Rightarrow>
        if result \<noteq> [] then (case new_LQueries result h' of (t, h'') \<Rightarrow> (Some t, h''))
        else (None, h'))"

text \<open>
  \<open>removed[0].length\<close> as a condition: a \<open>TypeError\<close> when \<open>removed[0]\<close> is
  \<open>undefined\<close> or \<open>null\<close>, false for an object (it has no \<open>length\<close>), and for an
  array whether it has an element. An exception ends the operation: the store it leaves
  behind is not modelled.
\<close>

fun removed_length :: "heap \<Rightarrow> item list \<Rightarrow> error + bool" where
  "removed_length h [] = Inl TypeError"
| "removed_length h (Val Undefined # _) = Inl TypeError"
| "removed_length h (Val Null # _) = Inl TypeError"
| "removed_length h (Val (Obj _) # _) = Inr False"
| "removed_length h (Ref a # _) = Inr (length (arrays h a) \<noteq> 0)"

fun removeView_loop :: "env \<Rightarrow> QueryPredicate list \<Rightarrow> int \<Rightarrow> heap \<Rightarrow> error + heap" where
  "removeView_loop e [] index h = Inr h"
| "removeView_loop e (predicate # rest) index h =
     (case splice_remove index (arrays h (pred_values predicate)) of (removed, remaining) \<Rightarrow>
        let h1 = h\<lparr>arrays := (arrays h)(pred_values predicate := remaining)\<rparr> in
        if ngDevMode e \<and> length removed \<noteq> 1 then Inl AssertionError
        else (case removed_length h1 removed of
                Inl err \<Rightarrow> Inl err
              | Inr nonempty \<Rightarrow>
                  removeView_loop e rest index
                    (if nonempty then setDirty (pred_list predicate) h1 else h1)))"

definition removeView :: "env \<Rightarrow> addr \<Rightarrow> int \<Rightarrow> heap \<Rightarrow> error + heap" where
  "removeView e this index h = removeView_loop e (deep (trackers h this)) index h"

section \<open>Matching\<close>

text \<open>
  \<open>getIdxOfMatchingSelector\<close>: \<open>None\<close> is \<open>null\<close>; \<open>Some None\<close> is \<open>undefined\<close>, read
  behind the end of an array of odd length.
\<close>

fun getIdx_loop :: "lname list \<Rightarrow> string \<Rightarrow> lname option option" where
  "getIdx_loop [] selector = None"
| "getIdx_loop [n] selector = (if n = LStr selector then Some None else None)"
| "getIdx_loop (n # idx # rest) selector =
     (if n = LStr selector then Some (Some idx) else getIdx_loop rest selector)"

definition getIdxOfMatchingSelector :: "TNode \<Rightarrow> string \<Rightarrow> lname option option" where
  "getIdxOfMatchingSelector tn selector =
     (case localNames tn of None \<Rightarrow> None | Some names \<Rightarrow> getIdx_loop names selector)"

text \<open>
  The loop of \<open>geIdxOfMatchingDirective\<close> from \<open>i\<close> up to \<open>ii\<close>. Reading \<open>tData[i]\<close>
  out of range gives \<open>undefined\<close>, and \<open>def.diPublic\<close> then throws. The type looked for
  is \<open>None\<close> when the caller passes \<open>null\<close>; no \<open>def.type\<close> is \<open>null\<close>.
\<close>

function geIdx_loop :: "DirectiveDef list \<Rightarrow> Type option \<Rightarrow> int \<Rightarrow> int \<Rightarrow> error + int option" where
  "geIdx_loop td ty i ii =
     (if i < ii then
        (if i < 0 \<or> int (length td) \<le> i then Inl TypeError
         else if diPublic (td ! nat i) \<and> Some (def_type (td ! nat i)) = ty then Inr (Some i)
         else geIdx_loop td ty (i + 1) ii)
      else Inr None)"
  by pat_completeness auto
termination
  by (relation "measure (\<lambda>(td, ty, i, ii). nat (ii - i))") auto

declare geIdx_loop.simps [simp del]

text \<open>\<open>>>\<close> is the signed shift of a 32-bit integer by the count modulo 32.\<close>

definition geIdxOfMatchingDirective :: "env \<Rightarrow> LNode \<Rightarrow> Type option \<Rightarrow> error + int option" where
  "geIdxOfMatchingDirective e node ty =
     (let i = sint (signed_drop_bit (INDX_SHIFT e mod 32) (flags node));
          ii = i + sint (signed_drop_bit (SIZE_SHIFT e mod 32) (flags node AND SIZE_MASK e))
      in geIdx_loop (tData node) ty i ii)"

text \<open>\<open>xs[i]\<close> for an index that may lie outside the array.\<close>

definition js_index :: "jsval list \<Rightarrow> int \<Rightarrow> jsval" where
  "js_index xs i = (if 0 \<le> i \<and> i < int (length xs) then xs ! nat i else Undefined)"

text \<open>
  \<open>readFromNodeInjector\<close>. The argument \<open>rd\<close> is \<open>None\<close> when the caller passes
  \<open>predicate.read !\<close> with \<open>predicate.read\<close> being \<open>null\<close>.
\<close>

definition readFromNodeInjector ::
  "env \<Rightarrow> LInjector \<Rightarrow> LNode \<Rightarrow> read option \<Rightarrow> lname option \<Rightarrow> error + jsval"
where
  "readFromNodeInjector e nodeInj node rd directiveIdx =
     (case rd of
        Some (ReadFromInjectorFn f) \<Rightarrow> Inr (f nodeInj node directiveIdx)
      | _ \<Rightarrow>
          (case geIdxOfMatchingDirective e node
                  (case rd of Some (ReadType t) \<Rightarrow> Some t | _ \<Rightarrow> None) of
             Inl err \<Rightarrow> Inl err
           | Inr (Some matchingIdx) \<Rightarrow> Inr (js_index (data node) matchingIdx)
           | Inr None \<Rightarrow> Inr Null))"

definition addMatch :: "QueryPredicate \<Rightarrow> jsval \<Rightarrow> heap \<Rightarrow> heap" where
  "addMatch predicate matchingValue h =
     setDirty (pred_list predicate)
       (h\<lparr>arrays := (arrays h)(pred_values predicate :=
             arrays h (pred_values predicate) @ [Val matchingValue])\<rparr>)"

text \<open>
  Modelled from the spec: \<open>getOrCreateNodeInjectorForNode\<close> of \<open>./di\<close>, the
  node-to-lookup-context resolver \<open>contextFor(node) -> context\<close>.
\<close>

definition getOrCreateNodeInjectorForNode :: "LNode \<Rightarrow> LInjector" where
  "getOrCreateNodeInjectorForNode node = nodeInjector node"

text \<open>The \<open>for\<close> loop of \<open>add\<close> over the names of a selector.\<close>

fun add_selector ::
  "env \<Rightarrow> LInjector \<Rightarrow> QueryPredicate \<Rightarrow> LNode \<Rightarrow> string list \<Rightarrow> heap \<Rightarrow> error + heap"
where
  "add_selector e nodeInj predicate node [] h = Inr h"
| "add_selector e nodeInj predicate node (name # rest) h =
     (if ngDevMode e \<and> tNode node = None then Inl AssertionError
      else (case tNode node of
              None \<Rightarrow> Inl TypeError
            | Some tn \<Rightarrow>
                (case getIdxOfMatchingSelector tn name of
                   None \<Rightarrow> add_selector e nodeInj predicate node rest h
                 | Some directiveIdx \<Rightarrow>
                     if ngDevMode e \<and> pred_read predicate = None then Inl AssertionError
                     else (case readFromNodeInjector e nodeInj node (pred_read predicate) directiveIdx of
                             Inl err \<Rightarrow> Inl err
                           | Inr result \<Rightarrow>
                               add_selector e nodeInj predicate node rest
                                 (if result \<noteq> Null then addMatch predicate result h else h)))))"

text \<open>The body of the \<open>while\<close> loop of \<open>add\<close> for one predicate.\<close>

definition add_predicate :: "env \<Rightarrow> LInjector \<Rightarrow> QueryPredicate \<Rightarrow> LNode \<Rightarrow> heap \<Rightarrow> error + heap" where
  "add_predicate e nodeInj predicate node h =
     (case pred_type predicate of
        Some type \<Rightarrow>
          (case geIdxOfMatchingDirective e node (Some type) of
             Inl err \<Rightarrow> Inl err
           | Inr None \<Rightarrow> Inr h
           | Inr (Some directiveIdx) \<Rightarrow>
               (case readFromNodeInjector e nodeInj node
                       (case pred_read predicate of Some r \<Rightarrow> Some r | None \<Rightarrow> Some (ReadType type))
                       (Some (LNum directiveIdx)) of
                  Inl err \<Rightarrow> Inl err
                | Inr result \<Rightarrow> Inr (if result \<noteq> Null then addMatch predicate result h else h)))
      | None \<Rightarrow>
          (case pred_selector predicate of
             None \<Rightarrow> Inl TypeError
           | Some selector \<Rightarrow> add_selector e nodeInj predicate node selector h))"

fun add_loop :: "env \<Rightarrow> LInjector \<Rightarrow> QueryPredicate list \<Rightarrow> LNode \<Rightarrow> heap \<Rightarrow> error + heap" where
  "add_loop e nodeInj [] node h = Inr h"
| "add_loop e nodeInj (predicate # rest) node h =
     (case add_predicate e nodeInj predicate node h of
        Inl err \<Rightarrow> Inl err
      | Inr h' \<Rightarrow> add_loop e nodeInj rest node h')"

definition add :: "env \<Rightarrow> QueryPredicate list \<Rightarrow> LNode \<Rightarrow> heap \<Rightarrow> error + heap" where
  "add e predicate node h = add_loop e (getOrCreateNodeInjectorForNode node) predicate node h"

definition addNode :: "env \<Rightarrow> addr \<Rightarrow> LNode \<Rightarrow> heap \<Rightarrow> error + heap" where
  "addNode e this node h =
     (case add e (shallow (trackers h this)) node h of
        Inl err \<Rightarrow> Inl err
      | Inr h' \<Rightarrow> add e (deep (trackers h' this)) node h')"

section \<open>Refreshing a query list\<close>

text \<open>
  Modelled from the spec: \<open>flatten\<close> of \<open>./util\<close>, which flattens the nested value tree
  into the ordered sequence of its values. The first argument bounds the depth of
  nesting that is followed: \<open>None\<close> stands for a call that does not return.
\<close>

fun flatten :: "nat \<Rightarrow> (addr \<Rightarrow> item list) \<Rightarrow> item list \<Rightarrow> jsval list option" where
  "flatten n arrs [] = Some []"
| "flatten n arrs (Val v # xs) = map_option ((#) v) (flatten n arrs xs)"
| "flatten 0 arrs (Ref a # xs) = None"
| "flatten (Suc n) arrs (Ref a # xs) =
     (case flatten n arrs (arrs a) of
        None \<Rightarrow> None
      | Some ys \<Rightarrow> map_option ((@) ys) (flatten (Suc n) arrs xs))"

text \<open>
  \<open>reset(res)\<close>. A store with \<open>next_array h\<close> arrays nests them at most that deep unless
  an array contains itself, so this bound fails only where \<open>flatten\<close> would not return.
\<close>

definition reset :: "addr \<Rightarrow> addr \<Rightarrow> heap \<Rightarrow> heap option" where
  "reset l res h =
     (case flatten (next_array h) (arrays h) (arrays h res) of
        None \<Rightarrow> None
      | Some vs \<Rightarrow> Some (h\<lparr>lists := (lists h)(l := (lists h l)\<lparr>ql_values := vs, dirty := False\<rparr>)\<rparr>))"

definition queryRefresh :: "addr \<Rightarrow> heap \<Rightarrow> (bool \<times> heap) option" where
  "queryRefresh queryList h =
     (if dirty (lists h queryList)
      then (case reset queryList (ql_valuesTree (lists h queryList)) h of
              None \<Rightarrow> None
            | Some h' \<Rightarrow> Some (True, notifyOnChanges queryList h'))
      else Some (False, h))"

section \<open>Well-formed stores and example inputs\<close>

text \<open>The store before anything is allocated.\<close>

definition init_heap :: heap where
  "init_heap =
     \<lparr>arrays = (\<lambda>_. []), next_array = 0,
      lists = (\<lambda>_. \<lparr>dirty = True, changes = 0, ql_values = [], ql_valuesTree = 0\<rparr>),
      next_list = 0,
      trackers = (\<lambda>_. \<lparr>shallow = [], deep = []\<rparr>), next_tracker = 0\<rparr>"

definition item_ok :: "addr \<Rightarrow> addr \<Rightarrow> item \<Rightarrow> bool" where
  "item_ok lo hi it = (case it of Val v \<Rightarrow> True | Ref b \<Rightarrow> lo \<le> b \<and> b < hi)"

text \<open>
  What every store built by the operations satisfies: an array holds references only to
  arrays allocated after it (only a fresh array is ever stored in an array), and every
  query list and predicate points to an allocated array.
\<close>

definition wf_heap :: "heap \<Rightarrow> bool" where
  "wf_heap h =
     ((\<forall>a<next_array h. \<forall>it\<in>set (arrays h a). item_ok (Suc a) (next_array h) it) \<and>
      (\<forall>l<next_list h. ql_valuesTree (lists h l) < next_array h) \<and>
      (\<forall>t<next_tracker h. \<forall>p\<in>set (shallow (trackers h t) @ deep (trackers h t)).
          pred_values p < next_array h))"

text \<open>
  The entry of \<open>p\<close>'s array at \<open>index\<close> is the array of a view, and that array is not
  itself the \<open>values\<close> of a predicate of the chain \<open>ps\<close>.
\<close>

definition view_slot :: "heap \<Rightarrow> int \<Rightarrow> QueryPredicate list \<Rightarrow> QueryPredicate \<Rightarrow> bool" where
  "view_slot h index ps p =
     (0 \<le> index \<and> nat index < length (arrays h (pred_values p)) \<and>
      (case arrays h (pred_values p) ! nat index of
         Val v \<Rightarrow> False | Ref b \<Rightarrow> b \<notin> pred_values ` set ps))"

text \<open>The array that \<open>p\<close> holds at \<open>index\<close> has at least one element.\<close>

definition removed_nonempty :: "heap \<Rightarrow> int \<Rightarrow> QueryPredicate \<Rightarrow> bool" where
  "removed_nonempty h index p =
     (case arrays h (pred_values p) ! nat index of Val v \<Rightarrow> False | Ref b \<Rightarrow> arrays h b \<noteq> [])"

text \<open>
  What \<open>add\<close> can change: it appends values to arrays and marks lists dirty, and
  leaves the references held in arrays, the allocation and the trackers as they are.
\<close>

definition only_matches :: "heap \<Rightarrow> heap \<Rightarrow> bool" where
  "only_matches h h' =
     ((\<forall>a. \<forall>it\<in>set (arrays h' a). it \<in> set (arrays h a) \<or> (\<exists>v. it = Val v)) \<and>
      next_array h' = next_array h \<and>
      (\<forall>l. ql_valuesTree (lists h' l) = ql_valuesTree (lists h l)) \<and>
      next_list h' = next_list h \<and> trackers h' = trackers h \<and>
      next_tracker h' = next_tracker h)"

text \<open>
  The loops of \<open>container()\<close> and \<open>enterView()\<close> differ only in how the fresh array is
  put into the predicate's array; \<open>clone_loop\<close> is that loop with the step as a parameter
  (as \<open>_clonePredicates\<close> takes its clone function), used to prove facts of both at once.
\<close>

fun clone_loop ::
  "(item \<Rightarrow> item list \<Rightarrow> item list) \<Rightarrow> QueryPredicate list \<Rightarrow> QueryPredicate list \<Rightarrow> heap \<Rightarrow>
   QueryPredicate list \<times> heap"
where
  "clone_loop put [] result h = (result, h)"
| "clone_loop put (predicate # rest) result h =
     (case new_array h of (fresh, h1) \<Rightarrow>
        let h2 = h1\<lparr>arrays := (arrays h1)(pred_values predicate :=
                       put (Ref fresh) (arrays h1 (pred_values predicate)))\<rparr>;
            clonedPredicate =
              \<lparr>pred_list = pred_list predicate,
               pred_type = pred_type predicate,
               pred_selector = pred_selector predicate,
               pred_read = pred_read predicate,
               pred_values = fresh\<rparr>
        in clone_loop put rest (clonedPredicate # result) h2)"

text \<open>
  The clones that such a loop makes of a chain, in the chain's order: the predicate at
  position \<open>k\<close> with the array allocated at \<open>n + k\<close> as its \<open>values\<close>.
\<close>

fun clones :: "addr \<Rightarrow> QueryPredicate list \<Rightarrow> QueryPredicate list" where
  "clones n [] = []"
| "clones n (p # ps) = p\<lparr>pred_values := n\<rparr> # clones (Suc n) ps"

text \<open>A sequence of \<open>enterView\<close> calls on one tracker, one for each index of the list.\<close>

fun enterViews :: "addr \<Rightarrow> int list \<Rightarrow> heap \<Rightarrow> heap" where
  "enterViews this [] h = h"
| "enterViews this (index # rest) h = enterViews this rest (snd (enterView this index h))"

text \<open>
  The list of a container's views under the same calls: the view of each call, whose array
  is \<open>b\<close>, then \<open>b + step\<close>, and so on, is inserted at its index among the views
  entered before.
\<close>

fun insert_views :: "int list \<Rightarrow> addr \<Rightarrow> nat \<Rightarrow> item list \<Rightarrow> item list" where
  "insert_views [] b step xs = xs"
| "insert_views (index # rest) b step xs =
     insert_views rest (b + step) step (splice_insert index (Ref b) xs)"

text \<open>
  A store that operations on \<open>h\<close> can lead to: nothing is deallocated, and the deep
  chain of an allocated tracker only grows at its head.
\<close>

definition later :: "heap \<Rightarrow> heap \<Rightarrow> bool" where
  "later h g =
     (next_array h \<le> next_array g \<and> next_tracker h \<le> next_tracker g \<and>
      (\<forall>t<next_tracker h. \<exists>d. deep (trackers g t) = d @ deep (trackers h t)))"

definition ex_env :: env where
  "ex_env = \<lparr>ngDevMode = True, INDX_SHIFT = 12, SIZE_MASK = 4092, SIZE_SHIFT = 2\<rparr>"

text \<open>A node with one public directive of type 7, whose instance is \<open>Obj 1\<close>.\<close>

definition ex_node :: LNode where
  "ex_node =
     \<lparr>flags = 4, tData = [\<lparr>diPublic = True, def_type = 7\<rparr>], data = [Obj 1],
      tNode = Some \<lparr>localNames = Some [LStr ''foo'', LNum 0]\<rparr>, nodeInjector = 0\<rparr>"

definition ex_pred :: "addr \<Rightarrow> QueryPredicate" where
  "ex_pred a =
     \<lparr>pred_list = 0, pred_type = Some 7, pred_selector = None, pred_read = None,
      pred_values = a\<rparr>"

text \<open>
  The scenario of the specification, after the refresh: a deep query by type at the root
  tracker 0, a container (tracker 1, array 1), two views entered at 0 and 1 (trackers 2
  and 3, arrays 2 and 3), one matching node added in view 0.
\<close>

definition ex_heap :: heap where
  "ex_heap =
     \<lparr>arrays = (\<lambda>_. [])(0 := [Ref 1], 1 := [Ref 2, Ref 3], 2 := [Val (Obj 1)]),
      next_array = 4,
      lists = (\<lambda>_. \<lparr>dirty = True, changes = 0, ql_values = [], ql_valuesTree = 0\<rparr>)
                (0 := \<lparr>dirty = False, changes = 1, ql_values = [Obj 1], ql_valuesTree = 0\<rparr>),
      next_list = 1,
      trackers = (\<lambda>_. \<lparr>shallow = [], deep = []\<rparr>)
                (0 := \<lparr>shallow = [], deep = [ex_pred 0]\<rparr>,
                 1 := \<lparr>shallow = [], deep = [ex_pred 1]\<rparr>,
                 2 := \<lparr>shallow = [], deep = [ex_pred 2]\<rparr>,
                 3 := \<lparr>shallow = [], deep = [ex_pred 3]\<rparr>),
      next_tracker = 4\<rparr>"

text \<open>A predicate by selector without a read strategy; one name is a local name of \<open>ex_node\<close>.\<close>

definition ex_sel_pred :: QueryPredicate where
  "ex_sel_pred =
     \<lparr>pred_list = 0, pred_type = None, pred_selector = Some [''bar'', ''foo''],
      pred_read = None, pred_values = 0\<rparr>"

text \<open>The node of \<open>ex_node\<close> with \<open>null\<close> stored for its directive.\<close>

definition ex_null_node :: LNode where
  "ex_null_node = ex_node\<lparr>data := [Null]\<rparr>"

text \<open>A predicate by selector that reads a type no directive of \<open>ex_node\<close> has.\<close>

definition ex_read_pred :: QueryPredicate where
  "ex_read_pred =
     \<lparr>pred_list = 0, pred_type = None, pred_selector = Some [''foo''],
      pred_read = Some (ReadType 9), pred_values = 0\<rparr>"

text \<open>
  A tracker 0 with one deep predicate and no shallow one, and a second query list 1 that
  no predicate feeds yet.
\<close>

definition ex_bug_heap :: heap where
  "ex_bug_heap =
     \<lparr>arrays = (\<lambda>_. []), next_array = 2,
      lists = (\<lambda>_. \<lparr>dirty = True, changes = 0, ql_values = [], ql_valuesTree = 0\<rparr>)
                (1 := \<lparr>dirty = True, changes = 0, ql_values = [], ql_valuesTree = 1\<rparr>),
      next_list = 2,
      trackers = (\<lambda>_. \<lparr>shallow = [], deep = []\<rparr>)
                (0 := \<lparr>shallow = [], deep = [ex_pred 0]\<rparr>),
      next_tracker = 1\<rparr>"

section \<open>Properties\<close>

subsection \<open>Flattening\<close>

lemma item_ok_Ref [simp]: "item_ok lo hi (Ref b) = (lo \<le> b \<and> b < hi)"
  by (simp add: item_ok_def)

lemma item_ok_Val [simp]: "item_ok lo hi (Val v)"
  by (simp add: item_ok_def)

lemma item_ok_Suc: "item_ok lo hi it \<Longrightarrow> item_ok lo (Suc hi) it"
  by (cases it) simp_all

text \<open>On a well-formed store \<open>flatten\<close> returns: the bound on the depth is enough.\<close>

lemma flatten_Some_aux:
  "(\<forall>a<N. \<forall>it\<in>set (arrs a). item_ok (Suc a) N it) \<Longrightarrow>
   (\<forall>it\<in>set xs. item_ok lo N it) \<Longrightarrow> N - lo \<le> n \<Longrightarrow> \<exists>vs. flatten n arrs xs = Some vs"
proof (induction n arrs xs arbitrary: lo rule: flatten.induct)
  case (1 n arrs)
  then show ?case by simp
next
  case (2 n arrs v xs)
  have "\<exists>vs. flatten n arrs xs = Some vs"
    by (rule 2(1)[of lo]) (use 2 in simp_all)
  then show ?case by auto
next
  case (3 arrs a xs)
  have "lo \<le> a" "a < N" using 3(2) by simp_all
  with 3(3) have False by arith
  then show ?case ..
next
  case (4 n arrs a xs)
  have a: "lo \<le> a" "a < N" using 4(4) by simp_all
  have inner: "\<forall>it\<in>set (arrs a). item_ok (Suc a) N it"
    using 4(3) a(2) by blast
  have fuel: "N - Suc a \<le> n" using 4(5) a by arith
  obtain ys where ys: "flatten n arrs (arrs a) = Some ys"
    using 4(1)[OF 4(3) inner fuel] by blast
  have "\<exists>vs. flatten (Suc n) arrs xs = Some vs"
    by (rule 4(2)[OF ys 4(3), of lo]) (use 4(4,5) in simp_all)
  with ys show ?case by auto
qed

lemma flatten_wf:
  assumes "wf_heap h" "a < next_array h"
  shows "\<exists>vs. flatten (next_array h) (arrays h) (arrays h a) = Some vs"
proof (rule flatten_Some_aux[where N = "next_array h" and lo = 0])
  show "\<forall>a<next_array h. \<forall>it\<in>set (arrays h a). item_ok (Suc a) (next_array h) it"
    using assms by (simp add: wf_heap_def)
  have "\<forall>it\<in>set (arrays h a). item_ok (Suc a) (next_array h) it"
    using assms by (simp add: wf_heap_def)
  then show "\<forall>it\<in>set (arrays h a). item_ok 0 (next_array h) it"
    by (auto simp: item_ok_def split: item.splits)
qed simp

lemma flatten_append:
  "flatten d arrs (xs @ ys) =
     (case flatten d arrs xs of
        None \<Rightarrow> None
      | Some vs \<Rightarrow> map_option ((@) vs) (flatten d arrs ys))"
proof (induction d arrs xs rule: flatten.induct)
  case (1 n arrs)
  show ?case by (cases "flatten n arrs ys") simp_all
next
  case (2 n arrs v xs)
  then show ?case
    by (cases "flatten n arrs ys") (auto split: option.splits)
next
  case (3 arrs a xs)
  show ?case by simp
next
  case (4 n arrs a xs)
  then show ?case
    by (cases "flatten (Suc n) arrs ys") (auto split: option.splits)
qed

lemma flatten_positions:
  "\<forall>i<length xs. flatten d arrs [xs ! i] = Some (vs i) \<Longrightarrow>
   flatten d arrs xs = Some (concat (map vs [0..<length xs]))"
proof (induction xs arbitrary: vs rule: rev_induct)
  case Nil
  show ?case by simp
next
  case (snoc x xs)
  have "\<forall>i<length xs. flatten d arrs [xs ! i] = Some (vs i)"
    using snoc.prems by (auto simp: nth_append split: if_splits)
  then have "flatten d arrs xs = Some (concat (map vs [0..<length xs]))"
    by (rule snoc.IH)
  moreover have "flatten d arrs [x] = Some (vs (length xs))"
    using snoc.prems by (auto simp: nth_append)
  ultimately show ?case by (simp add: flatten_append)
qed

subsection \<open>Splicing and removing a view\<close>

lemma splice_start_in_range: "0 \<le> index \<Longrightarrow> nat index \<le> len \<Longrightarrow> splice_start index len = nat index"
  by (simp add: splice_start_def)

lemma splice_remove_in_range:
  "0 \<le> index \<Longrightarrow> nat index < length xs \<Longrightarrow>
   splice_remove index xs = ([xs ! nat index], take (nat index) xs @ drop (Suc (nat index)) xs)"
  by (simp add: splice_remove_def splice_start_in_range Let_def take_Suc_conv_app_nth Cons_nth_drop_Suc[symmetric])

lemma splice_insert_in_range:
  "0 \<le> index \<Longrightarrow> nat index \<le> length xs \<Longrightarrow>
   splice_insert index x xs = take (nat index) xs @ x # drop (nat index) xs"
  by (simp add: splice_insert_def splice_start_def Let_def)

lemma set_splice_insert: "set (splice_insert index x xs) \<subseteq> insert x (set xs)"
proof -
  have "set (take n xs) \<union> set (drop n xs) \<subseteq> set xs" for n
    by (metis set_append append_take_drop_id order_refl)
  then show ?thesis by (auto simp: splice_insert_def Let_def)
qed

lemma removeView_loop_char:
  "distinct (map pred_values ps) \<Longrightarrow> \<forall>p\<in>set ps. view_slot h index qs p \<Longrightarrow> set ps \<subseteq> set qs \<Longrightarrow>
   \<exists>h'. removeView_loop e ps index h = Inr h' \<and>
     (\<forall>a. arrays h' a =
        (if a \<in> pred_values ` set ps
         then take (nat index) (arrays h a) @ drop (Suc (nat index)) (arrays h a)
         else arrays h a)) \<and>
     (\<forall>l. lists h' l =
        (lists h l)\<lparr>dirty := dirty (lists h l) \<or>
           (\<exists>p\<in>set ps. pred_list p = l \<and> removed_nonempty h index p)\<rparr>) \<and>
     trackers h' = trackers h \<and> next_array h' = next_array h \<and>
     next_list h' = next_list h \<and> next_tracker h' = next_tracker h"
proof (induction ps arbitrary: h)
  case Nil
  then show ?case by simp
next
  case (Cons p ps)
  let ?xs = "arrays h (pred_values p)"
  have slot: "view_slot h index qs p" using Cons.prems by simp
  then obtain b where b: "?xs ! nat index = Ref b" "b \<notin> pred_values ` set qs"
    and rng: "0 \<le> index" "nat index < length ?xs"
    by (auto simp: view_slot_def split: item.splits)
  have pq: "p \<in> set qs" using Cons.prems by simp
  with b have bp: "b \<noteq> pred_values p" by auto
  define h1 where "h1 = h\<lparr>arrays := (arrays h)(pred_values p := take (nat index) ?xs @ drop (Suc (nat index)) ?xs)\<rparr>"
  define h2 where "h2 = (if arrays h b \<noteq> [] then setDirty (pred_list p) h1 else h1)"
  have step: "removeView_loop e (p # ps) index h = removeView_loop e ps index h2"
    using b(1) bp by (simp add: splice_remove_in_range[OF rng] h1_def h2_def)
  have arr2: "arrays h2 = (arrays h)(pred_values p := take (nat index) ?xs @ drop (Suc (nat index)) ?xs)"
    by (simp add: h2_def h1_def setDirty_def)
  have notin: "pred_values p \<notin> pred_values ` set ps" using Cons.prems(1) by auto
  have slots2: "\<forall>q\<in>set ps. view_slot h2 index qs q"
  proof
    fix q assume q: "q \<in> set ps"
    then have "pred_values q \<noteq> pred_values p" using notin by (metis image_eqI)
    then have "arrays h2 (pred_values q) = arrays h (pred_values q)" by (simp add: arr2)
    moreover have "view_slot h index qs q" using Cons.prems(2) q by simp
    ultimately show "view_slot h2 index qs q" by (simp add: view_slot_def)
  qed
  have "distinct (map pred_values ps)" "set ps \<subseteq> set qs" using Cons.prems by auto
  from Cons.IH[OF this(1) slots2 this(2)] obtain h' where h':
    "removeView_loop e ps index h2 = Inr h'"
    "\<forall>a. arrays h' a =
        (if a \<in> pred_values ` set ps
         then take (nat index) (arrays h2 a) @ drop (Suc (nat index)) (arrays h2 a)
         else arrays h2 a)"
    "\<forall>l. lists h' l =
        (lists h2 l)\<lparr>dirty := dirty (lists h2 l) \<or>
           (\<exists>q\<in>set ps. pred_list q = l \<and> removed_nonempty h2 index q)\<rparr>"
    "trackers h' = trackers h2" "next_array h' = next_array h2"
    "next_list h' = next_list h2" "next_tracker h' = next_tracker h2"
    by blast
  have rn: "\<forall>q\<in>set ps. removed_nonempty h2 index q = removed_nonempty h index q"
  proof
    fix q assume q: "q \<in> set ps"
    then have ne: "pred_values q \<noteq> pred_values p" using notin by (metis image_eqI)
    have "view_slot h index qs q" using Cons.prems(2) q by simp
    then obtain c where c: "arrays h (pred_values q) ! nat index = Ref c" "c \<noteq> pred_values p"
      using pq by (auto simp: view_slot_def split: item.splits)
    then show "removed_nonempty h2 index q = removed_nonempty h index q"
      using ne by (simp add: removed_nonempty_def arr2)
  qed
  have rp: "removed_nonempty h index p = (arrays h b \<noteq> [])"
    using b(1) by (simp add: removed_nonempty_def)
  have l2: "\<forall>l. lists h2 l = (lists h l)\<lparr>dirty := dirty (lists h l) \<or> (pred_list p = l \<and> removed_nonempty h index p)\<rparr>"
    by (simp add: h2_def h1_def setDirty_def rp)
  have others: "trackers h2 = trackers h" "next_array h2 = next_array h"
    "next_list h2 = next_list h" "next_tracker h2 = next_tracker h"
    by (simp_all add: h2_def h1_def setDirty_def)
  have A: "\<forall>a. arrays h' a =
        (if a \<in> pred_values ` set (p # ps)
         then take (nat index) (arrays h a) @ drop (Suc (nat index)) (arrays h a)
         else arrays h a)"
    using h'(2) notin by (auto simp: arr2)
  have L: "\<forall>l. lists h' l =
        (lists h l)\<lparr>dirty := dirty (lists h l) \<or>
           (\<exists>q\<in>set (p # ps). pred_list q = l \<and> removed_nonempty h index q)\<rparr>"
  proof
    fix l
    have "(\<exists>q\<in>set ps. pred_list q = l \<and> removed_nonempty h2 index q) =
          (\<exists>q\<in>set ps. pred_list q = l \<and> removed_nonempty h index q)"
      using rn by blast
    then show "lists h' l =
        (lists h l)\<lparr>dirty := dirty (lists h l) \<or>
           (\<exists>q\<in>set (p # ps). pred_list q = l \<and> removed_nonempty h index q)\<rparr>"
      using h'(3) l2 by auto
  qed
  show ?case
    using step h'(1) A L h'(4-7) others by simp
qed

lemma removeView_loop_frame:
  "removeView_loop e ps index h = Inr h' \<Longrightarrow> a \<notin> pred_values ` set ps \<Longrightarrow> arrays h' a = arrays h a"
proof (induction ps arbitrary: h)
  case Nil
  then show ?case by simp
next
  case (Cons p ps)
  then show ?case
    by (auto simp: Let_def setDirty_def split: prod.splits sum.splits if_splits)
qed

lemma removeView_loop_shrinks:
  "removeView_loop e ps index h = Inr h' \<Longrightarrow>
   (\<forall>a. set (arrays h' a) \<subseteq> set (arrays h a)) \<and> next_array h' = next_array h \<and>
   (\<forall>l. ql_valuesTree (lists h' l) = ql_valuesTree (lists h l)) \<and> next_list h' = next_list h \<and>
   trackers h' = trackers h \<and> next_tracker h' = next_tracker h"
proof (induction ps arbitrary: h)
  case Nil
  then show ?case by simp
next
  case (Cons p ps)
  let ?xs = "arrays h (pred_values p)"
  obtain removed remaining where sp: "splice_remove index ?xs = (removed, remaining)"
    by (cases "splice_remove index ?xs")
  have sub: "set remaining \<subseteq> set ?xs"
  proof -
    show ?thesis using sp by (auto simp: splice_remove_def Let_def dest: in_set_takeD in_set_dropD)
  qed
  let ?h1 = "h\<lparr>arrays := (arrays h)(pred_values p := remaining)\<rparr>"
  obtain nonempty where ne: "removed_length ?h1 removed = Inr nonempty"
    and rest: "removeView_loop e ps index (if nonempty then setDirty (pred_list p) ?h1 else ?h1) = Inr h'"
    using Cons.prems sp by (auto simp: Let_def split: if_splits sum.splits)
  define h2 where "h2 = (if nonempty then setDirty (pred_list p) ?h1 else ?h1)"
  have ih: "(\<forall>a. set (arrays h' a) \<subseteq> set (arrays h2 a)) \<and> next_array h' = next_array h2 \<and>
      (\<forall>l. ql_valuesTree (lists h' l) = ql_valuesTree (lists h2 l)) \<and> next_list h' = next_list h2 \<and>
      trackers h' = trackers h2 \<and> next_tracker h' = next_tracker h2"
    using Cons.IH[of h2] rest by (simp add: h2_def)
  have a2: "\<forall>a. set (arrays h2 a) \<subseteq> set (arrays h a)"
    using sub by (auto simp: h2_def setDirty_def)
  have f2: "next_array h2 = next_array h" "next_list h2 = next_list h"
    "trackers h2 = trackers h" "next_tracker h2 = next_tracker h"
    "\<forall>l. ql_valuesTree (lists h2 l) = ql_valuesTree (lists h l)"
    by (simp_all add: h2_def setDirty_def)
  have "\<forall>a. set (arrays h' a) \<subseteq> set (arrays h a)"
    using ih a2 by (meson subset_trans)
  then show ?case using ih f2 by simp
qed

subsection \<open>Matching a node\<close>

lemma geIdx_loop_null: "geIdx_loop td None i ii \<noteq> Inr (Some k)"
proof (induction td "None :: Type option" i ii rule: geIdx_loop.induct)
  case (1 td i ii)
  show ?case
  proof (cases "i < ii \<and> \<not> (i < 0 \<or> int (length td) \<le> i)")
    case True
    then have "geIdx_loop td None i ii = geIdx_loop td None (i + 1) ii"
      by (subst geIdx_loop.simps) simp
    then show ?thesis using 1 True by simp
  next
    case False
    then show ?thesis by (subst geIdx_loop.simps) auto
  qed
qed

lemma geIdxOfMatchingDirective_null: "geIdxOfMatchingDirective e node None \<noteq> Inr (Some k)"
  by (simp add: geIdxOfMatchingDirective_def Let_def geIdx_loop_null)

lemma readFromNodeInjector_null:
  "readFromNodeInjector e nodeInj node None idx =
     (case geIdxOfMatchingDirective e node None of Inl err \<Rightarrow> Inl err | Inr r \<Rightarrow> Inr Null)"
  using geIdxOfMatchingDirective_null[of e node]
  by (auto simp: readFromNodeInjector_def split: sum.splits option.splits)

lemma add_selector_dev_no_read:
  "ngDevMode e \<Longrightarrow> pred_read p = None \<Longrightarrow> tNode node = Some tn \<Longrightarrow>
   \<exists>name\<in>set names. getIdxOfMatchingSelector tn name \<noteq> None \<Longrightarrow>
   add_selector e nodeInj p node names h = Inl AssertionError"
  by (induction names) (auto split: option.splits)

lemma add_selector_prod_no_read:
  "\<not> ngDevMode e \<Longrightarrow> pred_read p = None \<Longrightarrow> tNode node = Some tn \<Longrightarrow>
   add_selector e nodeInj p node names h =
     (if \<exists>name\<in>set names. getIdxOfMatchingSelector tn name \<noteq> None
      then (case geIdxOfMatchingDirective e node None of Inl err \<Rightarrow> Inl err | Inr r \<Rightarrow> Inr h)
      else Inr h)"
  by (induction names) (auto simp: readFromNodeInjector_null split: option.splits sum.splits)

lemma add_loop_append:
  "add_loop e nodeInj (xs @ ys) node h =
     (case add_loop e nodeInj xs node h of
        Inl err \<Rightarrow> Inl err
      | Inr h' \<Rightarrow> add_loop e nodeInj ys node h')"
  by (induction xs arbitrary: h) (auto split: sum.splits)

lemma add_selector_null:
  "tNode node = Some tn \<Longrightarrow> pred_read p \<noteq> None \<or> \<not> ngDevMode e \<Longrightarrow>
   \<forall>name\<in>set names. \<forall>idx. getIdxOfMatchingSelector tn name = Some idx \<longrightarrow>
      readFromNodeInjector e nodeInj node (pred_read p) idx = Inr Null \<Longrightarrow>
   add_selector e nodeInj p node names h = Inr h"
  by (induction names) (auto split: option.splits)

lemma addMatch_frame: "a \<noteq> pred_values p \<Longrightarrow> arrays (addMatch p v s) a = arrays s a"
  by (simp add: addMatch_def setDirty_def)

lemma only_matches_refl: "only_matches h h"
  by (simp add: only_matches_def)

lemma only_matches_trans: "only_matches h h1 \<Longrightarrow> only_matches h1 h2 \<Longrightarrow> only_matches h h2"
  unfolding only_matches_def by auto

lemma only_matches_addMatch: "only_matches h (addMatch p v h)"
  by (auto simp: only_matches_def addMatch_def setDirty_def)

lemma add_selector_only_matches:
  "add_selector e nodeInj p node names h = Inr h' \<Longrightarrow> only_matches h h'"
proof (induction names arbitrary: h)
  case Nil
  then show ?case by (simp add: only_matches_refl)
next
  case (Cons name names)
  then show ?case
    by (auto split: if_splits option.splits sum.splits
        intro: only_matches_trans[OF only_matches_addMatch])
qed

lemma add_predicate_only_matches:
  "add_predicate e nodeInj p node h = Inr h' \<Longrightarrow> only_matches h h'"
  by (auto simp: add_predicate_def only_matches_refl only_matches_addMatch
      add_selector_only_matches split: option.splits sum.splits if_splits)

lemma add_loop_only_matches:
  "add_loop e nodeInj ps node h = Inr h' \<Longrightarrow> only_matches h h'"
proof (induction ps arbitrary: h)
  case Nil
  then show ?case by (simp add: only_matches_refl)
next
  case (Cons p ps)
  then show ?case
    by (auto split: sum.splits intro: only_matches_trans dest: add_predicate_only_matches)
qed

lemma addNode_only_matches: "addNode e this node h = Inr h' \<Longrightarrow> only_matches h h'"
  by (auto simp: addNode_def add_def split: sum.splits
      intro: only_matches_trans dest: add_loop_only_matches)

subsection \<open>Cloning the deep chain\<close>

lemma container_loop_clone:
  "container_loop ps result h = clone_loop (\<lambda>x xs. xs @ [x]) ps result h"
  by (induction ps arbitrary: result h) (simp_all add: Let_def split: prod.splits)

lemma enterView_loop_clone:
  "enterView_loop ps index result h = clone_loop (splice_insert index) ps result h"
  by (induction ps arbitrary: result h) (simp_all add: Let_def split: prod.splits)

lemma cloned_eq:
  "\<lparr>pred_list = pred_list p, pred_type = pred_type p, pred_selector = pred_selector p,
    pred_read = pred_read p, pred_values = n\<rparr> = p\<lparr>pred_values := n\<rparr>"
  by simp

lemma clone_loop_Cons:
  "clone_loop put (p # ps) result h =
     clone_loop put ps (p\<lparr>pred_values := next_array h\<rparr> # result)
       (h\<lparr>next_array := Suc (next_array h),
          arrays := (arrays h)(next_array h := [],
                 pred_values p := put (Ref (next_array h))
                    (((arrays h)(next_array h := [])) (pred_values p)))\<rparr>)"
  by (simp add: new_array_def Let_def cloned_eq del: fun_upd_apply)

declare clone_loop.simps(2) [simp del]

declare clone_loop_Cons [simp]

lemma clone_loop_result:
  "fst (clone_loop put ps result h) = rev (clones (next_array h) ps) @ result"
  by (induction ps arbitrary: result h) simp_all

lemma clone_loop_fields:
  "next_array (snd (clone_loop put ps result h)) = next_array h + length ps \<and>
   lists (snd (clone_loop put ps result h)) = lists h \<and>
   trackers (snd (clone_loop put ps result h)) = trackers h \<and>
   next_list (snd (clone_loop put ps result h)) = next_list h \<and>
   next_tracker (snd (clone_loop put ps result h)) = next_tracker h"
  by (induction ps arbitrary: result h) simp_all

lemma clones_length [simp]: "length (clones n ps) = length ps"
  by (induction ps arbitrary: n) simp_all

lemma clones_nth: "k < length ps \<Longrightarrow> clones n ps ! k = (ps ! k)\<lparr>pred_values := n + k\<rparr>"
  by (induction ps arbitrary: n k) (auto simp: nth_Cons')

lemma clones_values: "pred_values ` set (clones n ps) = {n ..< n + length ps}"
proof (induction ps arbitrary: n)
  case Nil
  show ?case by simp
next
  case (Cons p ps)
  have "{n ..< n + length (p # ps)} = insert n {Suc n ..< Suc n + length ps}"
    by auto
  then show ?case by (simp add: Cons.IH)
qed

text \<open>Frame: only the arrays of the chain and the fresh arrays are written.\<close>

lemma clone_loop_frame:
  "a \<notin> pred_values ` set ps \<Longrightarrow> a < next_array h \<Longrightarrow>
   arrays (snd (clone_loop put ps result h)) a = arrays h a"
  by (induction ps arbitrary: result h) auto

lemma clone_loop_arrays:
  "distinct (map pred_values ps) \<Longrightarrow> \<forall>p\<in>set ps. pred_values p < next_array h \<Longrightarrow> k < length ps \<Longrightarrow>
   arrays (snd (clone_loop put ps result h)) (pred_values (ps ! k)) =
     put (Ref (next_array h + k)) (arrays h (pred_values (ps ! k))) \<and>
   arrays (snd (clone_loop put ps result h)) (next_array h + k) = []"
proof (induction ps arbitrary: result h k)
  case Nil
  then show ?case by simp
next
  case (Cons p ps)
  let ?n = "next_array h"
  let ?h2 = "h\<lparr>next_array := Suc ?n,
               arrays := (arrays h)(?n := [],
                 pred_values p := put (Ref ?n) (((arrays h)(?n := [])) (pred_values p)))\<rparr>"
  have pn: "pred_values p \<noteq> ?n" using Cons.prems(2) by auto
  have notin: "pred_values p \<notin> pred_values ` set ps" using Cons.prems(1) by auto
  have d: "distinct (map pred_values ps)" using Cons.prems(1) by simp
  have a: "\<forall>q\<in>set ps. pred_values q < next_array ?h2" using Cons.prems(2) by auto
  show ?case
  proof (cases k)
    case 0
    have "arrays (snd (clone_loop put ps (p\<lparr>pred_values := ?n\<rparr> # result) ?h2)) (pred_values p) =
            arrays ?h2 (pred_values p)"
      by (rule clone_loop_frame[OF notin]) (use Cons.prems(2) in auto)
    moreover have "?n \<notin> pred_values ` set ps" using Cons.prems(2) by auto
    then have "arrays (snd (clone_loop put ps (p\<lparr>pred_values := ?n\<rparr> # result) ?h2)) ?n =
            arrays ?h2 ?n"
      by (rule clone_loop_frame) simp
    ultimately show ?thesis using 0 pn by simp
  next
    case (Suc j)
    then have j: "j < length ps" using Cons.prems(3) by simp
    have mem: "ps ! j \<in> set ps" using j by simp
    have ne: "pred_values (ps ! j) \<noteq> pred_values p" "pred_values (ps ! j) \<noteq> ?n"
      using notin mem Cons.prems(2) by (metis image_eqI, fastforce)
    from Cons.IH[OF d a j, of "p\<lparr>pred_values := ?n\<rparr> # result"] ne
    show ?thesis using Suc by simp
  qed
qed

lemma clone_scope:
  "(case clone_loop put ps [] h of (result, h') \<Rightarrow>
      if result \<noteq> [] then (case new_LQueries result h' of (t, h'') \<Rightarrow> (Some t, h''))
      else (None, h')) =
   (if ps = [] then (None, h)
    else (Some (next_tracker h),
          (snd (clone_loop put ps [] h))
            \<lparr>trackers := (trackers h)(next_tracker h :=
                 \<lparr>shallow = [], deep = rev (clones (next_array h) ps)\<rparr>),
             next_tracker := Suc (next_tracker h)\<rparr>))"
proof (cases ps)
  case Nil
  then show ?thesis by simp
next
  case (Cons p qs)
  obtain result h' where r: "clone_loop put ps [] h = (result, h')" by (cases "clone_loop put ps [] h")
  have res: "result = rev (clones (next_array h) ps)"
    using clone_loop_result[of put ps "[]" h] r by simp
  have f: "trackers h' = trackers h" "next_tracker h' = next_tracker h"
    using clone_loop_fields[of put ps "[]" h] r by simp_all
  have "result \<noteq> []" using res Cons by simp
  then show ?thesis using r res f Cons by (simp add: new_LQueries_def)
qed

lemma container_eq:
  "container this h =
   (if deep (trackers h this) = [] then (None, h)
    else (Some (next_tracker h),
          (snd (clone_loop (\<lambda>x xs. xs @ [x]) (deep (trackers h this)) [] h))
            \<lparr>trackers := (trackers h)(next_tracker h :=
                 \<lparr>shallow = [], deep = rev (clones (next_array h) (deep (trackers h this)))\<rparr>),
             next_tracker := Suc (next_tracker h)\<rparr>))"
  unfolding container_def container_loop_clone by (rule clone_scope)

lemma enterView_eq:
  "enterView this index h =
   (if deep (trackers h this) = [] then (None, h)
    else (Some (next_tracker h),
          (snd (clone_loop (splice_insert index) (deep (trackers h this)) [] h))
            \<lparr>trackers := (trackers h)(next_tracker h :=
                 \<lparr>shallow = [], deep = rev (clones (next_array h) (deep (trackers h this)))\<rparr>),
             next_tracker := Suc (next_tracker h)\<rparr>))"
  unfolding enterView_def enterView_loop_clone by (rule clone_scope)

lemma enterView_step:
  assumes ne: "deep (trackers h this) \<noteq> []"
    and d: "distinct (map pred_values (deep (trackers h this)))"
    and a: "\<forall>p\<in>set (deep (trackers h this)). pred_values p < next_array h"
    and t: "this < next_tracker h"
  shows "fst (enterView this index h) = Some (next_tracker h)"
    and "trackers (snd (enterView this index h)) (next_tracker h) =
           \<lparr>shallow = [], deep = rev (clones (next_array h) (deep (trackers h this)))\<rparr>"
    and "trackers (snd (enterView this index h)) this = trackers h this"
    and "next_array (snd (enterView this index h)) = next_array h + length (deep (trackers h this))"
    and "next_tracker (snd (enterView this index h)) = Suc (next_tracker h)"
    and "k < length (deep (trackers h this)) \<Longrightarrow>
         arrays (snd (enterView this index h)) (pred_values (deep (trackers h this) ! k)) =
           splice_insert index (Ref (next_array h + k))
             (arrays h (pred_values (deep (trackers h this) ! k)))"
    and "k < length (deep (trackers h this)) \<Longrightarrow>
         arrays (snd (enterView this index h)) (next_array h + k) = []"
  using ne t clone_loop_fields[of "splice_insert index" "deep (trackers h this)" "[]" h]
    clone_loop_arrays[OF d a, of k "splice_insert index" "[]"]
  by (simp_all add: enterView_eq)

lemma enterViews_arrays:
  "deep (trackers h this) = ps \<Longrightarrow> ps \<noteq> [] \<Longrightarrow> distinct (map pred_values ps) \<Longrightarrow>
   \<forall>p\<in>set ps. pred_values p < next_array h \<Longrightarrow> this < next_tracker h \<Longrightarrow> k < length ps \<Longrightarrow>
   arrays (enterViews this indices h) (pred_values (ps ! k)) =
     insert_views indices (next_array h + k) (length ps) (arrays h (pred_values (ps ! k)))"
proof (induction indices arbitrary: h)
  case Nil
  show ?case by simp
next
  case (Cons index rest)
  let ?h1 = "snd (enterView this index h)"
  have ne: "deep (trackers h this) \<noteq> []" and d: "distinct (map pred_values (deep (trackers h this)))"
    and a: "\<forall>p\<in>set (deep (trackers h this)). pred_values p < next_array h"
    and k: "k < length (deep (trackers h this))"
    using Cons.prems by simp_all
  note st = enterView_step[OF ne d a Cons.prems(5)]
  have 1: "deep (trackers ?h1 this) = ps" using st(3)[of index] Cons.prems(1) by simp
  have 2: "\<forall>p\<in>set ps. pred_values p < next_array ?h1"
    using st(4)[of index] Cons.prems(4) by auto
  have 3: "this < next_tracker ?h1" using st(5)[of index] Cons.prems(5) by simp
  have "arrays (enterViews this rest ?h1) (pred_values (ps ! k)) =
     insert_views rest (next_array ?h1 + k) (length ps) (arrays ?h1 (pred_values (ps ! k)))"
    by (rule Cons.IH[OF 1 Cons.prems(2,3) 2 3 Cons.prems(6)])
  moreover have "arrays ?h1 (pred_values (ps ! k)) =
      splice_insert index (Ref (next_array h + k)) (arrays h (pred_values (ps ! k)))"
    using st(6)[OF k, of index] Cons.prems(1) by simp
  moreover have "next_array ?h1 + k = next_array h + k + length ps"
    using st(4)[of index] Cons.prems(1) by simp
  ultimately show ?case by simp
qed

lemma clone_loop_arrays_ok:
  "\<forall>a<next_array h. \<forall>it\<in>set (arrays h a). item_ok (Suc a) (next_array h) it \<Longrightarrow>
   \<forall>p\<in>set ps. pred_values p < next_array h \<Longrightarrow>
   \<forall>x xs. set (put x xs) \<subseteq> insert x (set xs) \<Longrightarrow>
   \<forall>a<next_array (snd (clone_loop put ps result h)).
     \<forall>it\<in>set (arrays (snd (clone_loop put ps result h)) a).
       item_ok (Suc a) (next_array (snd (clone_loop put ps result h))) it"
proof (induction ps arbitrary: result h)
  case Nil
  then show ?case by simp
next
  case (Cons p ps)
  let ?n = "next_array h"
  let ?h2 = "h\<lparr>next_array := Suc ?n,
               arrays := (arrays h)(?n := [],
                 pred_values p := put (Ref ?n) (((arrays h)(?n := [])) (pred_values p)))\<rparr>"
  have pn: "pred_values p < ?n" using Cons.prems(2) by simp
  have 1: "\<forall>a<next_array ?h2. \<forall>it\<in>set (arrays ?h2 a). item_ok (Suc a) (next_array ?h2) it"
  proof (intro allI impI ballI)
    fix a it assume a: "a < next_array ?h2" and it: "it \<in> set (arrays ?h2 a)"
    show "item_ok (Suc a) (next_array ?h2) it"
    proof (cases "a = pred_values p")
      case True
      then have "it \<in> insert (Ref ?n) (set (arrays h (pred_values p)))"
        using it pn Cons.prems(3) by auto
      then show ?thesis
        using True pn Cons.prems(1) by (auto simp: item_ok_Suc)
    next
      case False
      then show ?thesis
        using a it Cons.prems(1) by (auto simp: less_Suc_eq item_ok_Suc split: if_splits)
    qed
  qed
  have 2: "\<forall>q\<in>set ps. pred_values q < next_array ?h2" using Cons.prems(2) by auto
  show ?case
    using Cons.IH[OF 1 2 Cons.prems(3), of "p\<lparr>pred_values := ?n\<rparr> # result"] by simp
qed

subsection \<open>Every operation keeps the store well-formed\<close>

lemma wf_init_heap: "wf_heap init_heap"
  by (simp add: wf_heap_def init_heap_def)

lemma wf_new_QueryList: "wf_heap h \<Longrightarrow> wf_heap (snd (new_QueryList h))"
  by (auto simp: wf_heap_def new_QueryList_def new_array_def less_Suc_eq item_ok_Suc)

lemma wf_new_LQueries:
  "wf_heap h \<Longrightarrow> \<forall>p\<in>set d. pred_values p < next_array h \<Longrightarrow> wf_heap (snd (new_LQueries d h))"
  by (auto simp: wf_heap_def new_LQueries_def less_Suc_eq)

lemma wf_track:
  "wf_heap h \<Longrightarrow> queryList < next_list h \<Longrightarrow> wf_heap (track this queryList predicate descend rd h)"
  by (auto simp: wf_heap_def track_def createPredicate_def Let_def)

lemma wf_child: "wf_heap h \<Longrightarrow> this < next_tracker h \<Longrightarrow> wf_heap (snd (child this h))"
  by (auto simp: wf_heap_def child_def new_LQueries_def less_Suc_eq)

lemma wf_clone_scope:
  assumes w: "wf_heap h" and t: "this < next_tracker h"
    and put: "\<forall>x xs. set (put x xs) \<subseteq> insert x (set xs)"
    and ps: "ps = deep (trackers h this)"
  shows "wf_heap ((snd (clone_loop put ps [] h))
            \<lparr>trackers := (trackers h)(next_tracker h :=
                 \<lparr>shallow = [], deep = rev (clones (next_array h) ps)\<rparr>),
             next_tracker := Suc (next_tracker h)\<rparr>)"
proof -
  let ?h' = "snd (clone_loop put ps [] h)"
  have a: "\<forall>p\<in>set ps. pred_values p < next_array h"
    using w t ps by (auto simp: wf_heap_def)
  have ok: "\<forall>a<next_array h. \<forall>it\<in>set (arrays h a). item_ok (Suc a) (next_array h) it"
    using w by (simp add: wf_heap_def)
  note ar = clone_loop_arrays_ok[OF ok a put, of "[]"]
  note f = clone_loop_fields[of put ps "[]" h]
  have cl: "\<forall>q\<in>set (clones (next_array h) ps). pred_values q < next_array h + length ps"
  proof
    fix q assume "q \<in> set (clones (next_array h) ps)"
    then have "pred_values q \<in> {next_array h ..< next_array h + length ps}"
      using clones_values[of "next_array h" ps] by blast
    then show "pred_values q < next_array h + length ps" by simp
  qed
  have ls: "\<forall>l<next_list h. ql_valuesTree (lists h l) < next_array h + length ps"
    using w by (auto simp: wf_heap_def trans_less_add1)
  have tr: "\<forall>u<next_tracker h. \<forall>p\<in>set (shallow (trackers h u) @ deep (trackers h u)).
      pred_values p < next_array h + length ps"
    using w by (auto simp: wf_heap_def trans_less_add1)
  let ?H = "?h'\<lparr>trackers := (trackers h)(next_tracker h :=
                 \<lparr>shallow = [], deep = rev (clones (next_array h) ps)\<rparr>),
             next_tracker := Suc (next_tracker h)\<rparr>"
  have 1: "\<forall>a<next_array ?H. \<forall>it\<in>set (arrays ?H a). item_ok (Suc a) (next_array ?H) it"
    using ar by simp
  have 2: "\<forall>l<next_list ?H. ql_valuesTree (lists ?H l) < next_array ?H"
    using ls f by simp
  have 3: "\<forall>u<next_tracker ?H. \<forall>p\<in>set (shallow (trackers ?H u) @ deep (trackers ?H u)).
      pred_values p < next_array ?H"
  proof (intro allI impI ballI)
    fix u p assume u: "u < next_tracker ?H"
      and p: "p \<in> set (shallow (trackers ?H u) @ deep (trackers ?H u))"
    show "pred_values p < next_array ?H"
    proof (cases "u = next_tracker h")
      case True
      then show ?thesis using p cl f by simp
    next
      case False
      then have "u < next_tracker h" using u by simp
      then show ?thesis using p tr f False by simp
    qed
  qed
  show ?thesis
    unfolding wf_heap_def using 1 2 3 by blast
qed

lemma wf_container: "wf_heap h \<Longrightarrow> this < next_tracker h \<Longrightarrow> wf_heap (snd (container this h))"
  using wf_clone_scope[of h this "\<lambda>x xs. xs @ [x]" "deep (trackers h this)"]
  by (simp add: container_eq)

lemma wf_enterView: "wf_heap h \<Longrightarrow> this < next_tracker h \<Longrightarrow> wf_heap (snd (enterView this index h))"
  using wf_clone_scope[of h this "splice_insert index" "deep (trackers h this)"]
  by (simp add: enterView_eq set_splice_insert)

lemma wf_removeView: "wf_heap h \<Longrightarrow> removeView e this index h = Inr h' \<Longrightarrow> wf_heap h'"
proof -
  assume w: "wf_heap h" and r: "removeView e this index h = Inr h'"
  note s = removeView_loop_shrinks[OF r[unfolded removeView_def]]
  have "\<forall>a<next_array h'. \<forall>it\<in>set (arrays h' a). item_ok (Suc a) (next_array h') it"
    using w s by (auto simp: wf_heap_def)
  then show ?thesis using w s by (simp add: wf_heap_def)
qed

lemma wf_only_matches: "wf_heap h \<Longrightarrow> only_matches h h' \<Longrightarrow> wf_heap h'"
proof -
  assume w: "wf_heap h" and m: "only_matches h h'"
  have "\<forall>a<next_array h'. \<forall>it\<in>set (arrays h' a). item_ok (Suc a) (next_array h') it"
  proof (intro allI impI ballI)
    fix a it assume a: "a < next_array h'" and it: "it \<in> set (arrays h' a)"
    then have "it \<in> set (arrays h a) \<or> (\<exists>v. it = Val v)" using m by (simp add: only_matches_def)
    then show "item_ok (Suc a) (next_array h') it"
      using w m a by (auto simp: wf_heap_def only_matches_def)
  qed
  then show ?thesis using w m by (simp add: wf_heap_def only_matches_def)
qed

lemma wf_addNode: "wf_heap h \<Longrightarrow> addNode e this node h = Inr h' \<Longrightarrow> wf_heap h'"
  by (blast intro: wf_only_matches addNode_only_matches)

lemma wf_queryRefresh: "wf_heap h \<Longrightarrow> queryRefresh l h = Some (b, h') \<Longrightarrow> wf_heap h'"
  by (auto simp: queryRefresh_def reset_def notifyOnChanges_def wf_heap_def
      split: if_splits option.splits)

text \<open>Addresses are handed out in increasing order: no operation lowers \<open>next_array\<close>.\<close>

lemma next_array_mono:
  "next_array h \<le> next_array (snd (new_QueryList h))"
  "next_array h \<le> next_array (snd (new_LQueries d h))"
  "next_array h \<le> next_array (track this queryList predicate descend rd h)"
  "next_array h \<le> next_array (snd (child this h))"
  "next_array h \<le> next_array (snd (container this h))"
  "next_array h \<le> next_array (snd (enterView this index h))"
  "removeView e this index h = Inr h' \<Longrightarrow> next_array h \<le> next_array h'"
  "addNode e this node h = Inr h' \<Longrightarrow> next_array h \<le> next_array h'"
  "queryRefresh l h = Some (b, h') \<Longrightarrow> next_array h \<le> next_array h'"
proof -
  show "next_array h \<le> next_array (snd (new_QueryList h))"
    by (simp add: new_QueryList_def new_array_def)
  show "next_array h \<le> next_array (snd (new_LQueries d h))"
    by (simp add: new_LQueries_def)
  show "next_array h \<le> next_array (track this queryList predicate descend rd h)"
    by (simp add: track_def Let_def)
  show "next_array h \<le> next_array (snd (child this h))"
    by (simp add: child_def new_LQueries_def)
  show "next_array h \<le> next_array (snd (container this h))"
    using clone_loop_fields[of "\<lambda>x xs. xs @ [x]" "deep (trackers h this)" "[]" h]
    by (simp add: container_eq)
  show "next_array h \<le> next_array (snd (enterView this index h))"
    using clone_loop_fields[of "splice_insert index" "deep (trackers h this)" "[]" h]
    by (simp add: enterView_eq)
  show "removeView e this index h = Inr h' \<Longrightarrow> next_array h \<le> next_array h'"
    using removeView_loop_shrinks[of e "deep (trackers h this)" index h h']
    by (simp add: removeView_def)
  show "addNode e this node h = Inr h' \<Longrightarrow> next_array h \<le> next_array h'"
    using addNode_only_matches[of e this node h h'] by (simp add: only_matches_def)
  show "queryRefresh l h = Some (b, h') \<Longrightarrow> next_array h \<le> next_array h'"
    by (auto simp: queryRefresh_def reset_def notifyOnChanges_def split: if_splits option.splits)
qed

text \<open>Every operation leads to a later store.\<close>

lemma later_refl: "later h h"
  by (simp add: later_def)

lemma later_trans: "later h g \<Longrightarrow> later g k \<Longrightarrow> later h k"
proof -
  assume a: "later h g" and b: "later g k"
  have "\<exists>d. deep (trackers k t) = d @ deep (trackers h t)" if t: "t < next_tracker h" for t
  proof -
    obtain d where d: "deep (trackers g t) = d @ deep (trackers h t)"
      using a t by (auto simp: later_def)
    have "t < next_tracker g" using a t by (simp add: later_def)
    then obtain d' where "deep (trackers k t) = d' @ deep (trackers g t)"
      using b by (auto simp: later_def)
    then have "deep (trackers k t) = (d' @ d) @ deep (trackers h t)" using d by simp
    then show ?thesis by blast
  qed
  then show ?thesis using a b by (simp add: later_def)
qed

lemma later_same_trackers:
  "next_array h \<le> next_array g \<Longrightarrow> next_tracker h \<le> next_tracker g \<Longrightarrow>
   \<forall>t<next_tracker h. trackers g t = trackers h t \<Longrightarrow> later h g"
  by (simp add: later_def)

lemma later_new_QueryList: "later h (snd (new_QueryList h))"
  by (rule later_same_trackers) (simp_all add: new_QueryList_def new_array_def)

lemma later_new_LQueries: "later h (snd (new_LQueries d h))"
  by (rule later_same_trackers) (simp_all add: new_LQueries_def)

lemma later_track: "later h (track this queryList predicate descend rd h)"
  by (simp add: later_def track_def Let_def createPredicate_def)

lemma later_child: "later h (snd (child this h))"
  by (rule later_same_trackers) (simp_all add: child_def new_LQueries_def)

lemma later_container: "later h (snd (container this h))"
  using clone_loop_fields[of "\<lambda>x xs. xs @ [x]" "deep (trackers h this)" "[]" h]
  by (intro later_same_trackers) (simp_all add: container_eq)

lemma later_enterView: "later h (snd (enterView this index h))"
  using clone_loop_fields[of "splice_insert index" "deep (trackers h this)" "[]" h]
  by (intro later_same_trackers) (simp_all add: enterView_eq)

lemma later_removeView: "removeView e this index h = Inr h' \<Longrightarrow> later h h'"
  using removeView_loop_shrinks[of e "deep (trackers h this)" index h h']
  by (intro later_same_trackers) (simp_all add: removeView_def)

lemma later_addNode: "addNode e this node h = Inr h' \<Longrightarrow> later h h'"
  using addNode_only_matches[of e this node h h']
  by (intro later_same_trackers) (simp_all add: only_matches_def)

lemma later_queryRefresh: "queryRefresh l h = Some (b, h') \<Longrightarrow> later h h'"
  by (rule later_same_trackers)
    (auto simp: queryRefresh_def reset_def notifyOnChanges_def split: if_splits option.splits)

subsection \<open>The example stores\<close>

text \<open>The example store is what the operations build.\<close>

lemma ex_heap_reached:
  "(case new_QueryList init_heap of (l, s1) \<Rightarrow>
    case new_LQueries [] s1 of (t, s2) \<Rightarrow>
    case container t (track t l (ByType 7) True None s2) of (c, s4) \<Rightarrow>
    case enterView (the c) 0 s4 of (v0, s5) \<Rightarrow>
    case enterView (the c) 1 s5 of (v1, s6) \<Rightarrow>
    case addNode ex_env (the v0) ex_node s6 of Inl err \<Rightarrow> None | Inr s7 \<Rightarrow>
    map_option snd (queryRefresh l s7)) = Some ex_heap"
  apply (simp add: new_QueryList_def new_array_def new_LQueries_def init_heap_def track_def createPredicate_def
     container_def enterView_def splice_insert_def splice_start_def Let_def addNode_def add_def
     add_predicate_def geIdxOfMatchingDirective_def ex_env_def ex_node_def geIdx_loop.simps
     readFromNodeInjector_def js_index_def addMatch_def setDirty_def queryRefresh_def reset_def
     notifyOnChanges_def ex_heap_def ex_pred_def getOrCreateNodeInjectorForNode_def)
  apply (auto simp: fun_eq_iff numeral_2_eq_2 numeral_3_eq_3)
  done

lemma wf_ex_heap: "wf_heap ex_heap"
  by (auto simp: wf_heap_def ex_heap_def ex_pred_def less_Suc_eq numeral_eq_Suc)

lemma ex_geIdx: "geIdxOfMatchingDirective ex_env ex_node (Some 7) = Inr (Some 0)"
  by (simp add: geIdxOfMatchingDirective_def ex_env_def ex_node_def geIdx_loop.simps)

lemma ex_geIdx_null_node: "geIdxOfMatchingDirective ex_env ex_null_node (Some 7) = Inr (Some 0)"
  by (simp add: geIdxOfMatchingDirective_def ex_env_def ex_node_def ex_null_node_def geIdx_loop.simps)

lemma ex_geIdx_absent: "geIdxOfMatchingDirective ex_env ex_node (Some 9) = Inr None"
  by (simp add: geIdxOfMatchingDirective_def ex_env_def ex_node_def geIdx_loop.simps)

lemma ex_bug_heap_reached:
  "(case new_QueryList init_heap of (l0, s1) \<Rightarrow>
    case new_QueryList s1 of (l1, s2) \<Rightarrow>
    case new_LQueries [] s2 of (t, s3) \<Rightarrow> track t l0 (ByType 7) True None s3) = ex_bug_heap"
  by (simp add: new_QueryList_def new_array_def new_LQueries_def init_heap_def track_def
      createPredicate_def ex_bug_heap_def ex_pred_def)
    (auto simp: fun_eq_iff)

lemma ex_enterViews:
  "arrays (enterViews 1 [1, 0] ex_heap) = (arrays ex_heap)(1 := [Ref 5, Ref 2, Ref 4, Ref 3])"
  by (simp add: enterView_def ex_heap_def ex_pred_def new_array_def new_LQueries_def
      splice_insert_def splice_start_def Let_def)
    (auto simp: fun_eq_iff)

subsection \<open>The claims\<close>

text \<open>
  What \<open>removeView(index)\<close> does, by the length of the removed array: on a tracker whose
  deep predicates have distinct \<open>values\<close> arrays holding the array of a view at
  \<open>index\<close>, it returns, and for every deep predicate the entry at \<open>index\<close> is removed
  from its array; when that entry had an element the predicate's list is dirty afterwards,
  and a list none of whose predicates lost an entry with an element keeps its \<open>dirty\<close>
  flag as it was.
\<close>

lemma removeView_marks_by_length:
  assumes "distinct (map pred_values (deep (trackers h this)))"
    and "\<forall>p\<in>set (deep (trackers h this)). view_slot h index (deep (trackers h this)) p"
  shows "\<exists>h'. removeView e this index h = Inr h' \<and>
           (\<forall>p\<in>set (deep (trackers h this)).
              arrays h' (pred_values p) =
                take (nat index) (arrays h (pred_values p)) @
                drop (Suc (nat index)) (arrays h (pred_values p)) \<and>
              (removed_nonempty h index p \<longrightarrow> dirty (lists h' (pred_list p)))) \<and>
           (\<forall>l. (\<forall>p\<in>set (deep (trackers h this)). pred_list p = l \<longrightarrow> \<not> removed_nonempty h index p) \<longrightarrow>
                dirty (lists h' l) = dirty (lists h l))"
proof -
  let ?ps = "deep (trackers h this)"
  obtain h' where h': "removeView_loop e ?ps index h = Inr h'"
    and A: "\<forall>a. arrays h' a =
        (if a \<in> pred_values ` set ?ps
         then take (nat index) (arrays h a) @ drop (Suc (nat index)) (arrays h a)
         else arrays h a)"
    and L: "\<forall>l. lists h' l =
        (lists h l)\<lparr>dirty := dirty (lists h l) \<or>
           (\<exists>p\<in>set ?ps. pred_list p = l \<and> removed_nonempty h index p)\<rparr>"
    using removeView_loop_char[OF assms(1) assms(2) subset_refl, of e] by blast
  have "\<forall>p\<in>set ?ps. arrays h' (pred_values p) =
          take (nat index) (arrays h (pred_values p)) @ drop (Suc (nat index)) (arrays h (pred_values p))"
    using A by simp
  moreover have "\<forall>p\<in>set ?ps. removed_nonempty h index p \<longrightarrow> dirty (lists h' (pred_list p))"
    using L by auto
  moreover have "\<forall>l. (\<forall>p\<in>set ?ps. pred_list p = l \<longrightarrow> \<not> removed_nonempty h index p) \<longrightarrow>
                dirty (lists h' l) = dirty (lists h l)"
    using L by auto
  ultimately show ?thesis using h' by (simp add: removeView_def)
qed

text \<open>On the example store: removing view 0, which holds a match, and view 1, which is empty.\<close>

lemma removeView_marks_by_length_example:
  "(\<exists>h'. removeView ex_env 1 0 ex_heap = Inr h' \<and> arrays h' 1 = [Ref 3] \<and>
         dirty (lists h' 0)) \<and>
   (\<exists>h'. removeView ex_env 1 1 ex_heap = Inr h' \<and> arrays h' 1 = [Ref 2] \<and>
         \<not> dirty (lists h' 0))"
proof -
  have d: "distinct (map pred_values (deep (trackers ex_heap 1)))"
    by (simp add: ex_heap_def)
  have s0: "\<forall>p\<in>set (deep (trackers ex_heap 1)). view_slot ex_heap 0 (deep (trackers ex_heap 1)) p"
    by (simp add: ex_heap_def view_slot_def ex_pred_def)
  have s1: "\<forall>p\<in>set (deep (trackers ex_heap 1)). view_slot ex_heap 1 (deep (trackers ex_heap 1)) p"
    by (simp add: ex_heap_def view_slot_def ex_pred_def)
  show ?thesis
    using removeView_marks_by_length[OF d s0, of ex_env]
      removeView_marks_by_length[OF d s1, of ex_env]
    by (auto simp: ex_heap_def ex_pred_def removed_nonempty_def)
qed

text \<open>
  C1 does not hold of the code. \<open>removeView\<close> tests \<open>removed[0].length\<close>, the number
  of entries of the removed view's array, and a container made in a view is such an entry.
  In the example store after \<open>container()\<close> on the tracker of view 1, list 0 is not
  dirty and view 1 holds only the empty array of that container: it has no matched value
  and flattens to nothing. \<open>removeView(1)\<close> on the container's tracker removes the view
  and marks list 0 dirty; the refresh that follows recomputes the same values and emits a
  second change notification.
\<close>

theorem removeView_dirty_without_match:
  "(case container 3 ex_heap of (c, h) \<Rightarrow>
      (dirty (lists h 0), arrays h 1 ! 1, arrays h 3, arrays h 4,
       flatten (next_array h) (arrays h) [arrays h 1 ! 1],
       (case removeView ex_env 1 1 h of
          Inl err \<Rightarrow> None
        | Inr h' \<Rightarrow>
            Some (arrays h' 1, dirty (lists h' 0),
                  map_option (\<lambda>(b, h''). (b, ql_values (lists h'' 0), changes (lists h'' 0)))
                    (queryRefresh 0 h'))))) =
   (False, Ref 3, [Ref 4], [], Some [],
    Some ([Ref 2], True, Some (True, [Obj 1], 2)))"
  by (simp add: container_def ex_heap_def ex_pred_def new_array_def new_LQueries_def Let_def
      removeView_def splice_remove_def splice_start_def ex_env_def setDirty_def
      queryRefresh_def reset_def notifyOnChanges_def numeral_eq_Suc)

text \<open>
  C2: on a dirty list of a well-formed store \<open>queryRefresh\<close> returns \<open>true\<close>, sets
  \<open>_values\<close> to the flattened \<open>_valuesTree\<close>, clears \<open>dirty\<close> and emits one change
  notification, and a second call right after returns \<open>false\<close> and changes nothing; on
  a list that is not dirty it returns \<open>false\<close> and changes nothing.
\<close>

theorem queryRefresh_once:
  assumes "wf_heap h" and "l < next_list h"
  shows "(dirty (lists h l) \<longrightarrow>
           (\<exists>vs h'. flatten (next_array h) (arrays h) (arrays h (ql_valuesTree (lists h l))) = Some vs \<and>
              queryRefresh l h = Some (True, h') \<and>
              ql_values (lists h' l) = vs \<and> \<not> dirty (lists h' l) \<and>
              changes (lists h' l) = Suc (changes (lists h l)) \<and>
              queryRefresh l h' = Some (False, h'))) \<and>
         (\<not> dirty (lists h l) \<longrightarrow> queryRefresh l h = Some (False, h))"
proof -
  have "ql_valuesTree (lists h l) < next_array h"
    using assms by (simp add: wf_heap_def)
  then obtain vs where
    "flatten (next_array h) (arrays h) (arrays h (ql_valuesTree (lists h l))) = Some vs"
    using flatten_wf[OF assms(1)] by blast
  then show ?thesis
    by (simp add: queryRefresh_def reset_def notifyOnChanges_def)
qed

text \<open>C2 on the example store, where list 0 is fresh, and after marking it dirty.\<close>

theorem queryRefresh_once_witness:
  "wf_heap ex_heap \<and> (0::nat) < next_list ex_heap \<and> \<not> dirty (lists ex_heap 0) \<and>
   queryRefresh 0 ex_heap = Some (False, ex_heap) \<and>
   wf_heap (setDirty 0 ex_heap) \<and> dirty (lists (setDirty 0 ex_heap) 0) \<and>
   (\<exists>h'. queryRefresh 0 (setDirty 0 ex_heap) = Some (True, h') \<and>
      ql_values (lists h' 0) = [Obj 1] \<and> \<not> dirty (lists h' 0) \<and> changes (lists h' 0) = 2 \<and>
      queryRefresh 0 h' = Some (False, h'))"
proof -
  have w: "wf_heap ex_heap" by (rule wf_ex_heap)
  have w': "wf_heap (setDirty 0 ex_heap)" using w by (simp add: wf_heap_def setDirty_def)
  have l: "0 < next_list ex_heap" "0 < next_list (setDirty 0 ex_heap)"
    by (simp_all add: ex_heap_def setDirty_def)
  have f: "flatten (next_array (setDirty 0 ex_heap)) (arrays (setDirty 0 ex_heap))
             (arrays (setDirty 0 ex_heap) (ql_valuesTree (lists (setDirty 0 ex_heap) 0))) = Some [Obj 1]"
    by (simp add: ex_heap_def setDirty_def numeral_eq_Suc)
  show ?thesis
    using queryRefresh_once[OF w l(1)] queryRefresh_once[OF w' l(2)] w w' l f
    by (auto simp: ex_heap_def setDirty_def)
qed

text \<open>
  C3: a predicate by selector whose read strategy is absent, evaluated against a node that
  has one of its names as a local name, makes \<open>add\<close> throw the assertion error in
  development mode, wherever the predicate stands in the chain (unless a predicate before
  it has already thrown); in production mode the assertion is not evaluated: the predicate
  appends nothing and \<open>add\<close> goes on with the rest of the chain, unless the scan of
  the directive table throws.
\<close>

theorem selector_without_read_fails_fast:
  assumes "pred_type p = None" and "pred_selector p = Some names" and "pred_read p = None"
    and "tNode node = Some tn"
    and "\<exists>name\<in>set names. getIdxOfMatchingSelector tn name \<noteq> None"
  shows "(ngDevMode e \<longrightarrow>
            add e (before @ p # rest) node h =
              (case add e before node h of
                 Inl err \<Rightarrow> Inl err
               | Inr h1 \<Rightarrow> Inl AssertionError)) \<and>
         (\<not> ngDevMode e \<longrightarrow>
            add e (before @ p # rest) node h =
              (case add e before node h of
                 Inl err \<Rightarrow> Inl err
               | Inr h1 \<Rightarrow>
                   (case geIdxOfMatchingDirective e node None of
                      Inl err \<Rightarrow> Inl err
                    | Inr r \<Rightarrow> add e rest node h1)))"
proof (cases "ngDevMode e")
  case True
  have "\<And>h1. add_predicate e (getOrCreateNodeInjectorForNode node) p node h1 = Inl AssertionError"
    using assms add_selector_dev_no_read[OF True assms(3,4,5)]
    by (simp add: add_predicate_def)
  then show ?thesis
    using True by (simp add: add_def add_loop_append split: sum.splits)
next
  case False
  have "\<And>h1. add_predicate e (getOrCreateNodeInjectorForNode node) p node h1 =
          (case geIdxOfMatchingDirective e node None of Inl err \<Rightarrow> Inl err | Inr r \<Rightarrow> Inr h1)"
    using assms add_selector_prod_no_read[OF False assms(3,4)]
    by (simp add: add_predicate_def)
  then show ?thesis
    using False by (simp add: add_def add_loop_append split: sum.splits)
qed

text \<open>C3 on a chain of a predicate by type and then the selector predicate, in both build modes.\<close>

theorem selector_without_read_fails_fast_witness:
  "add ex_env [ex_pred 2, ex_sel_pred] ex_node ex_heap = Inl AssertionError \<and>
   (\<exists>h1. add (ex_env\<lparr>ngDevMode := False\<rparr>) [ex_pred 2] ex_node ex_heap = Inr h1 \<and>
      add (ex_env\<lparr>ngDevMode := False\<rparr>) [ex_pred 2, ex_sel_pred] ex_node ex_heap = Inr h1)"
proof -
  have m: "\<exists>name\<in>set [''bar'', ''foo''].
      getIdxOfMatchingSelector \<lparr>localNames = Some [LStr ''foo'', LNum 0]\<rparr> name \<noteq> None"
    by (simp add: getIdxOfMatchingSelector_def)
  have g: "geIdxOfMatchingDirective (ex_env\<lparr>ngDevMode := False\<rparr>) ex_node None = Inr None"
    by (simp add: geIdxOfMatchingDirective_def ex_env_def ex_node_def geIdx_loop.simps)
  have n: "tNode ex_node = Some \<lparr>localNames = Some [LStr ''foo'', LNum 0]\<rparr>"
    by (simp add: ex_node_def)
  have b: "\<And>dev. add (ex_env\<lparr>ngDevMode := dev\<rparr>) [ex_pred 2] ex_node ex_heap =
      Inr (addMatch (ex_pred 2) (Obj 1) ex_heap)"
    by (simp add: add_def add_predicate_def ex_pred_def geIdxOfMatchingDirective_def ex_env_def
        ex_node_def geIdx_loop.simps readFromNodeInjector_def js_index_def)
  have e: "ex_env\<lparr>ngDevMode := True\<rparr> = ex_env" by (simp add: ex_env_def)
  have s: "pred_type ex_sel_pred = None" "pred_selector ex_sel_pred = Some [''bar'', ''foo'']"
    "pred_read ex_sel_pred = None"
    by (simp_all add: ex_sel_pred_def)
  have "add ex_env ([ex_pred 2] @ ex_sel_pred # []) ex_node ex_heap = Inl AssertionError"
    using selector_without_read_fails_fast[OF s n m, of ex_env "[ex_pred 2]" "[]" ex_heap]
      b[of True] e
    by (simp add: ex_env_def)
  moreover have "add (ex_env\<lparr>ngDevMode := False\<rparr>) ([ex_pred 2] @ ex_sel_pred # []) ex_node ex_heap =
      Inr (addMatch (ex_pred 2) (Obj 1) ex_heap)"
    using selector_without_read_fails_fast[OF s n m, of "ex_env\<lparr>ngDevMode := False\<rparr>" "[ex_pred 2]" "[]" ex_heap]
      b[of False] g
    by (simp add: ex_env_def add_def)
  ultimately show ?thesis using b[of False] by simp
qed

text \<open>
  C4 does not hold of the code. \<open>child()\<close> on tracker 0 of \<open>ex_bug_heap\<close> returns
  tracker 0 itself; a shallow predicate tracked through that result is then matched against a
  node added to the parent, and its value is appended to the array of list 1. With a newly
  allocated tracker carrying the same deep chain, the same steps leave that array empty.
\<close>

theorem child_reuse_track_mutates_parent:
  "(case child 0 ex_bug_heap of (c, h1) \<Rightarrow>
      (c, map_sum id (\<lambda>h'. arrays h' 1)
            (addNode ex_env 0 ex_node (track (the c) 1 (ByType 7) False None h1)))) =
     (Some 0, Inr [Val (Obj 1)]) \<and>
   (case new_LQueries (deep (trackers ex_bug_heap 0)) ex_bug_heap of (c, h1) \<Rightarrow>
      (c, map_sum id (\<lambda>h'. arrays h' 1)
            (addNode ex_env 0 ex_node (track c 1 (ByType 7) False None h1)))) =
     (1, Inr [])"
  by (simp add: child_def ex_bug_heap_def new_LQueries_def track_def createPredicate_def
      addNode_def add_def add_predicate_def ex_pred_def geIdxOfMatchingDirective_def ex_env_def
      ex_node_def geIdx_loop.simps readFromNodeInjector_def js_index_def addMatch_def setDirty_def)

text \<open>
  C5 does not hold of the code. \<open>child()\<close> on tracker 0 of \<open>ex_bug_heap\<close> returns
  tracker 0 itself; a shallow predicate tracked on the parent afterwards is in the shallow
  chain of the child scope, and a node added there is matched against it.
\<close>

theorem child_reuse_shallow_reaches_child:
  "(case child 0 ex_bug_heap of (c, h1) \<Rightarrow>
      (c, map_sum id (\<lambda>h'. (shallow (trackers h' (the c)), arrays h' 1))
            (addNode ex_env (the c) ex_node (track 0 1 (ByType 7) False None h1)))) =
     (Some 0,
      Inr ([\<lparr>pred_list = 1, pred_type = Some 7, pred_selector = None, pred_read = None,
             pred_values = 1\<rparr>],
           [Val (Obj 1)]))"
  by (simp add: child_def ex_bug_heap_def new_LQueries_def track_def createPredicate_def
      addNode_def add_def add_predicate_def ex_pred_def geIdxOfMatchingDirective_def ex_env_def
      ex_node_def geIdx_loop.simps readFromNodeInjector_def js_index_def addMatch_def setDirty_def)

text \<open>
  C6: take two \<open>container()\<close> calls, on the same tracker or on two, the second in
  any later store. Where both chains hold the same deep predicate, its two clones
  differ from it, and from each other, only in \<open>values\<close>: they share the target list and
  own distinct arrays. No array of one call's clones is an array of the other's, so a
  match appended through a clone of one call leaves every array of the other call's
  clones as it was, and \<open>removeView\<close> on the tracker of one call changes no array but
  the arrays of that call's clones.
\<close>

theorem container_clones_disjoint:
  assumes "container this h = (Some c1, h1)"
    and "later h1 g"
    and "container that g = (Some c2, g2)"
  shows "(\<forall>j k. j < length (deep (trackers h this)) \<and> k < length (deep (trackers g that)) \<and>
               rev (deep (trackers h this)) ! j = rev (deep (trackers g that)) ! k \<longrightarrow>
            (\<exists>a1 a2. a1 \<noteq> a2 \<and>
               deep (trackers h1 c1) ! j = (rev (deep (trackers h this)) ! j)\<lparr>pred_values := a1\<rparr> \<and>
               deep (trackers g2 c2) ! k = (rev (deep (trackers h this)) ! j)\<lparr>pred_values := a2\<rparr>)) \<and>
         (\<forall>p1\<in>set (deep (trackers h1 c1)). \<forall>p2\<in>set (deep (trackers g2 c2)).
            pred_values p1 \<noteq> pred_values p2 \<and>
            (\<forall>v s. arrays (addMatch p1 v s) (pred_values p2) = arrays s (pred_values p2) \<and>
                   arrays (addMatch p2 v s) (pred_values p1) = arrays s (pred_values p1))) \<and>
         (\<forall>e index s s'.
            deep (trackers s c1) = deep (trackers h1 c1) \<and> removeView e c1 index s = Inr s' \<longrightarrow>
              (\<forall>a. a \<notin> pred_values ` set (deep (trackers h1 c1)) \<longrightarrow> arrays s' a = arrays s a) \<and>
              (\<forall>p2\<in>set (deep (trackers g2 c2)). arrays s' (pred_values p2) = arrays s (pred_values p2))) \<and>
         (\<forall>e index s s'.
            deep (trackers s c2) = deep (trackers g2 c2) \<and> removeView e c2 index s = Inr s' \<longrightarrow>
              (\<forall>a. a \<notin> pred_values ` set (deep (trackers g2 c2)) \<longrightarrow> arrays s' a = arrays s a) \<and>
              (\<forall>p1\<in>set (deep (trackers h1 c1)). arrays s' (pred_values p1) = arrays s (pred_values p1)))"
proof -
  let ?ps = "deep (trackers h this)" and ?qs = "deep (trackers g that)"
  let ?n = "next_array h" and ?m = "next_array g"
  have ne: "?ps \<noteq> []" using assms(1) by (auto simp: container_eq split: if_splits)
  have nq: "?qs \<noteq> []" using assms(3) by (auto simp: container_eq split: if_splits)
  have d1: "deep (trackers h1 c1) = rev (clones ?n ?ps)"
    using assms(1) ne by (auto simp: container_eq)
  have d2: "deep (trackers g2 c2) = rev (clones ?m ?qs)"
    using assms(3) nq by (auto simp: container_eq)
  have n1: "next_array h1 = ?n + length ?ps"
    using assms(1) ne clone_loop_fields[of "\<lambda>x xs. xs @ [x]" ?ps "[]" h] by (auto simp: container_eq)
  then have le: "?n + length ?ps \<le> ?m" using assms(2) by (simp add: later_def)
  have v1: "pred_values ` set (deep (trackers h1 c1)) = {?n ..< ?n + length ?ps}"
    by (simp add: d1 clones_values)
  have v2: "pred_values ` set (deep (trackers g2 c2)) = {?m ..< ?m + length ?qs}"
    by (simp add: d2 clones_values)
  have disj: "\<forall>p1\<in>set (deep (trackers h1 c1)). \<forall>p2\<in>set (deep (trackers g2 c2)).
      pred_values p1 \<noteq> pred_values p2"
  proof (intro ballI)
    fix p1 p2 assume "p1 \<in> set (deep (trackers h1 c1))" "p2 \<in> set (deep (trackers g2 c2))"
    then have "pred_values p1 \<in> {?n ..< ?n + length ?ps}" "pred_values p2 \<in> {?m ..< ?m + length ?qs}"
      using v1 v2 by blast+
    then show "pred_values p1 \<noteq> pred_values p2" using le by auto
  qed
  have cl: "rev (clones b xs) ! i = (rev xs ! i)\<lparr>pred_values := b + (length xs - Suc i)\<rparr>"
    if "i < length xs" for b xs i
  proof -
    have "i < length (clones b xs)" using that by simp
    then have "rev (clones b xs) ! i = clones b xs ! (length (clones b xs) - Suc i)"
      by (rule rev_nth)
    also have "\<dots> = (xs ! (length xs - Suc i))\<lparr>pred_values := b + (length xs - Suc i)\<rparr>"
      using that by (simp add: clones_nth)
    also have "xs ! (length xs - Suc i) = rev xs ! i" using that by (simp add: rev_nth)
    finally show ?thesis .
  qed
  have same: "\<forall>j k. j < length ?ps \<and> k < length ?qs \<and> rev ?ps ! j = rev ?qs ! k \<longrightarrow>
      (\<exists>a1 a2. a1 \<noteq> a2 \<and>
         deep (trackers h1 c1) ! j = (rev ?ps ! j)\<lparr>pred_values := a1\<rparr> \<and>
         deep (trackers g2 c2) ! k = (rev ?ps ! j)\<lparr>pred_values := a2\<rparr>)"
  proof (intro allI impI, elim conjE)
    fix j k assume j: "j < length ?ps" and k: "k < length ?qs" and e: "rev ?ps ! j = rev ?qs ! k"
    have 1: "deep (trackers h1 c1) ! j = (rev ?ps ! j)\<lparr>pred_values := ?n + (length ?ps - Suc j)\<rparr>"
      unfolding d1 by (rule cl[OF j])
    have 2: "deep (trackers g2 c2) ! k = (rev ?ps ! j)\<lparr>pred_values := ?m + (length ?qs - Suc k)\<rparr>"
      unfolding d2 e by (rule cl[OF k])
    have "?n + (length ?ps - Suc j) < ?n + length ?ps" using j by arith
    then have 3: "?n + (length ?ps - Suc j) \<noteq> ?m + (length ?qs - Suc k)" using le by arith
    show "\<exists>a1 a2. a1 \<noteq> a2 \<and>
         deep (trackers h1 c1) ! j = (rev ?ps ! j)\<lparr>pred_values := a1\<rparr> \<and>
         deep (trackers g2 c2) ! k = (rev ?ps ! j)\<lparr>pred_values := a2\<rparr>"
      using 1 2 3 by blast
  qed
  have frame1: "\<forall>e index s s'.
      deep (trackers s c1) = deep (trackers h1 c1) \<and> removeView e c1 index s = Inr s' \<longrightarrow>
        (\<forall>a. a \<notin> pred_values ` set (deep (trackers h1 c1)) \<longrightarrow> arrays s' a = arrays s a) \<and>
        (\<forall>p2\<in>set (deep (trackers g2 c2)). arrays s' (pred_values p2) = arrays s (pred_values p2))"
  proof (intro allI impI, elim conjE)
    fix e index s s'
    assume c: "deep (trackers s c1) = deep (trackers h1 c1)" and r: "removeView e c1 index s = Inr s'"
    then have l: "removeView_loop e (deep (trackers h1 c1)) index s = Inr s'"
      by (simp add: removeView_def)
    have f: "\<forall>a. a \<notin> pred_values ` set (deep (trackers h1 c1)) \<longrightarrow> arrays s' a = arrays s a"
      using removeView_loop_frame[OF l] by blast
    moreover have "\<forall>p2\<in>set (deep (trackers g2 c2)). pred_values p2 \<notin> pred_values ` set (deep (trackers h1 c1))"
      using disj by (metis imageE)
    ultimately show "(\<forall>a. a \<notin> pred_values ` set (deep (trackers h1 c1)) \<longrightarrow> arrays s' a = arrays s a) \<and>
        (\<forall>p2\<in>set (deep (trackers g2 c2)). arrays s' (pred_values p2) = arrays s (pred_values p2))"
      by blast
  qed
  have frame2: "\<forall>e index s s'.
      deep (trackers s c2) = deep (trackers g2 c2) \<and> removeView e c2 index s = Inr s' \<longrightarrow>
        (\<forall>a. a \<notin> pred_values ` set (deep (trackers g2 c2)) \<longrightarrow> arrays s' a = arrays s a) \<and>
        (\<forall>p1\<in>set (deep (trackers h1 c1)). arrays s' (pred_values p1) = arrays s (pred_values p1))"
  proof (intro allI impI, elim conjE)
    fix e index s s'
    assume c: "deep (trackers s c2) = deep (trackers g2 c2)" and r: "removeView e c2 index s = Inr s'"
    then have l: "removeView_loop e (deep (trackers g2 c2)) index s = Inr s'"
      by (simp add: removeView_def)
    have f: "\<forall>a. a \<notin> pred_values ` set (deep (trackers g2 c2)) \<longrightarrow> arrays s' a = arrays s a"
      using removeView_loop_frame[OF l] by blast
    moreover have "\<forall>p1\<in>set (deep (trackers h1 c1)). pred_values p1 \<notin> pred_values ` set (deep (trackers g2 c2))"
      using disj by (metis imageE)
    ultimately show "(\<forall>a. a \<notin> pred_values ` set (deep (trackers g2 c2)) \<longrightarrow> arrays s' a = arrays s a) \<and>
        (\<forall>p1\<in>set (deep (trackers h1 c1)). arrays s' (pred_values p1) = arrays s (pred_values p1))"
      by blast
  qed
  have am: "\<forall>p1\<in>set (deep (trackers h1 c1)). \<forall>p2\<in>set (deep (trackers g2 c2)).
            pred_values p1 \<noteq> pred_values p2 \<and>
            (\<forall>v s. arrays (addMatch p1 v s) (pred_values p2) = arrays s (pred_values p2) \<and>
                   arrays (addMatch p2 v s) (pred_values p1) = arrays s (pred_values p1))"
  proof (intro ballI)
    fix p1 p2 assume "p1 \<in> set (deep (trackers h1 c1))" "p2 \<in> set (deep (trackers g2 c2))"
    then have n: "pred_values p1 \<noteq> pred_values p2" using disj by blast
    then have "pred_values p2 \<noteq> pred_values p1" by (rule not_sym)
    with n show "pred_values p1 \<noteq> pred_values p2 \<and>
            (\<forall>v s. arrays (addMatch p1 v s) (pred_values p2) = arrays s (pred_values p2) \<and>
                   arrays (addMatch p2 v s) (pred_values p1) = arrays s (pred_values p1))"
      by (simp add: addMatch_frame)
  qed
  show ?thesis
    using same am frame1 frame2 by blast
qed

text \<open>
  C6 on the example store: two containers under the root tracker, a view entered in the first
  before the second is made, a match appended through the second, and the view removed
  from the first.
\<close>

theorem container_clones_disjoint_witness:
  "\<exists>h1 g2. container 0 ex_heap = (Some 4, h1) \<and>
     container 0 (snd (enterView 4 0 h1)) = (Some 6, g2) \<and>
     deep (trackers h1 4) = [ex_pred 4] \<and> deep (trackers g2 6) = [ex_pred 6] \<and>
     arrays g2 0 = [Ref 1, Ref 4, Ref 6] \<and> arrays g2 4 = [Ref 5] \<and>
     arrays (addMatch (ex_pred 6) (Obj 9) g2) 4 = [Ref 5] \<and>
     (\<exists>s'. removeView ex_env 4 0 (addMatch (ex_pred 6) (Obj 9) g2) = Inr s' \<and>
        arrays s' 4 = [] \<and> arrays s' 6 = [Val (Obj 9)])"
proof -
  obtain h1 where h1: "container 0 ex_heap = (Some 4, h1)"
    by (simp add: container_def ex_heap_def new_array_def new_LQueries_def Let_def)
  have a1: "arrays h1 = (arrays ex_heap)(4 := [], 0 := [Ref 1, Ref 4])" "next_array h1 = 5"
    "next_tracker h1 = 5"
    "trackers h1 = (trackers ex_heap)(4 := \<lparr>shallow = [], deep = [ex_pred 4]\<rparr>)"
    using h1 by (auto simp: container_def ex_heap_def ex_pred_def new_array_def new_LQueries_def Let_def)
  define g where "g = snd (enterView 4 0 h1)"
  have ag: "arrays g = (arrays ex_heap)(5 := [], 4 := [Ref 5], 0 := [Ref 1, Ref 4])" "next_array g = 6"
    "next_tracker g = 6"
    "trackers g = (trackers ex_heap)(4 := \<lparr>shallow = [], deep = [ex_pred 4]\<rparr>,
        5 := \<lparr>shallow = [], deep = [ex_pred 5]\<rparr>)"
    by (auto simp: g_def enterView_def a1 ex_heap_def ex_pred_def new_array_def new_LQueries_def
        Let_def splice_insert_def splice_start_def fun_eq_iff)
  obtain g2 where g2: "container 0 g = (Some 6, g2)"
    by (simp add: container_def ag ex_heap_def new_array_def new_LQueries_def Let_def)
  have a2: "arrays g2 = (arrays ex_heap)(5 := [], 4 := [Ref 5], 6 := [], 0 := [Ref 1, Ref 4, Ref 6])"
    "trackers g2 = (trackers ex_heap)(4 := \<lparr>shallow = [], deep = [ex_pred 4]\<rparr>,
        5 := \<lparr>shallow = [], deep = [ex_pred 5]\<rparr>, 6 := \<lparr>shallow = [], deep = [ex_pred 6]\<rparr>)"
    using g2 by (auto simp: container_def ag ex_heap_def ex_pred_def new_array_def new_LQueries_def Let_def fun_eq_iff)
  have l: "later h1 g" unfolding g_def by (rule later_enterView)
  note th = container_clones_disjoint[OF h1 l g2]
  define s where "s = addMatch (ex_pred 6) (Obj 9) g2"
  have d: "deep (trackers s 4) = deep (trackers h1 4)"
    by (simp add: s_def a1 a2 addMatch_def setDirty_def)
  have as: "arrays s = (arrays g2)(6 := [Val (Obj 9)])"
    by (simp add: s_def a2 addMatch_def setDirty_def ex_pred_def)
  obtain s' where s': "removeView ex_env 4 0 s = Inr s'"
    by (simp add: removeView_def s_def a2 addMatch_def setDirty_def ex_pred_def splice_remove_def
        splice_start_def ex_env_def Let_def)
  have fr: "\<forall>p2\<in>set (deep (trackers g2 6)). arrays s' (pred_values p2) = arrays s (pred_values p2)"
    using th d s' by blast
  have r6: "arrays s' 6 = [Val (Obj 9)]" using fr by (simp add: a2 as ex_pred_def)
  have r4: "arrays s' 4 = []"
    using s' by (auto simp: removeView_def s_def a2 addMatch_def ex_pred_def splice_remove_def
        splice_start_def ex_env_def Let_def setDirty_def split: if_splits)
  have "\<forall>v s. arrays (addMatch (ex_pred 6) v s) (pred_values (ex_pred 4)) = arrays s (pred_values (ex_pred 4))"
    using th by (simp add: a1 a2)
  then have am: "arrays s 4 = [Ref 5]"
    by (simp add: s_def a2 ex_pred_def)
  have tf: "deep (trackers h1 4) = [ex_pred 4]" "deep (trackers g2 6) = [ex_pred 6]"
    "arrays g2 0 = [Ref 1, Ref 4, Ref 6]" "arrays g2 4 = [Ref 5]"
    by (simp_all add: a1 a2)
  show ?thesis
    using h1 g2 tf am s' r4 r6 unfolding s_def g_def by blast
qed

text \<open>
  C7: \<open>enterView(index)\<close>, on a tracker whose deep predicates have distinct, allocated
  \<open>values\<close> arrays, returns a new tracker without shallow predicates; for the deep
  predicate \<open>p\<close> at position \<open>k\<close> its clone has a fresh empty array as \<open>values\<close>, and
  that array is spliced into \<open>p\<close>'s array at \<open>index\<close>: for an index within the array it
  stands at position \<open>index\<close>, the entries from there on moved up by one. After a
  sequence of calls \<open>p\<close>'s array is the list of views that inserting each view at its
  index gives, whatever the order of the calls; and flattening an array yields the
  values of its entries in ascending position.
\<close>

theorem enterView_inserts_at_index:
  assumes "deep (trackers h this) = ps" and "ps \<noteq> []"
    and "distinct (map pred_values ps)"
    and "\<forall>q\<in>set ps. pred_values q < next_array h"
    and "this < next_tracker h"
    and "k < length ps" and "ps ! k = p"
  shows "(\<exists>h'. enterView this index h = (Some (next_tracker h), h') \<and>
            shallow (trackers h' (next_tracker h)) = [] \<and>
            rev (deep (trackers h' (next_tracker h))) ! k = p\<lparr>pred_values := next_array h + k\<rparr> \<and>
            arrays h' (next_array h + k) = [] \<and>
            arrays h' (pred_values p) =
              splice_insert index (Ref (next_array h + k)) (arrays h (pred_values p)) \<and>
            (0 \<le> index \<and> nat index \<le> length (arrays h (pred_values p)) \<longrightarrow>
               arrays h' (pred_values p) =
                 take (nat index) (arrays h (pred_values p)) @
                 Ref (next_array h + k) # drop (nat index) (arrays h (pred_values p)))) \<and>
         arrays (enterViews this indices h) (pred_values p) =
           insert_views indices (next_array h + k) (length ps) (arrays h (pred_values p)) \<and>
         (\<forall>s d vs.
            (\<forall>i<length (arrays s (pred_values p)).
               flatten d (arrays s) [arrays s (pred_values p) ! i] = Some (vs i)) \<longrightarrow>
            flatten d (arrays s) (arrays s (pred_values p)) =
              Some (concat (map vs [0..<length (arrays s (pred_values p))])))"
proof -
  have ne: "deep (trackers h this) \<noteq> []"
    and d: "distinct (map pred_values (deep (trackers h this)))"
    and a: "\<forall>p\<in>set (deep (trackers h this)). pred_values p < next_array h"
    and k: "k < length (deep (trackers h this))"
    and p: "deep (trackers h this) ! k = p"
    using assms by simp_all
  note st = enterView_step[OF ne d a assms(5)]
  let ?h' = "snd (enterView this index h)"
  have e: "enterView this index h = (Some (next_tracker h), ?h')"
    using st(1)[of index] by (simp add: prod_eq_iff)
  have c: "rev (deep (trackers ?h' (next_tracker h))) ! k = p\<lparr>pred_values := next_array h + k\<rparr>"
    using st(2)[of index] k p by (simp add: clones_nth)
  have s: "arrays ?h' (pred_values p) =
      splice_insert index (Ref (next_array h + k)) (arrays h (pred_values p))"
    using st(6)[OF k, of index] p by simp
  have r: "0 \<le> index \<and> nat index \<le> length (arrays h (pred_values p)) \<longrightarrow>
      arrays ?h' (pred_values p) =
        take (nat index) (arrays h (pred_values p)) @
        Ref (next_array h + k) # drop (nat index) (arrays h (pred_values p))"
    using s by (simp add: splice_insert_in_range)
  have one: "\<exists>h'. enterView this index h = (Some (next_tracker h), h') \<and>
            shallow (trackers h' (next_tracker h)) = [] \<and>
            rev (deep (trackers h' (next_tracker h))) ! k = p\<lparr>pred_values := next_array h + k\<rparr> \<and>
            arrays h' (next_array h + k) = [] \<and>
            arrays h' (pred_values p) =
              splice_insert index (Ref (next_array h + k)) (arrays h (pred_values p)) \<and>
            (0 \<le> index \<and> nat index \<le> length (arrays h (pred_values p)) \<longrightarrow>
               arrays h' (pred_values p) =
                 take (nat index) (arrays h (pred_values p)) @
                 Ref (next_array h + k) # drop (nat index) (arrays h (pred_values p)))"
    using e c s r st(2)[of index] st(7)[OF k, of index] by (intro exI[of _ ?h']) simp
  have many: "arrays (enterViews this indices h) (pred_values p) =
           insert_views indices (next_array h + k) (length ps) (arrays h (pred_values p))"
    using enterViews_arrays[OF assms(1-6), of indices] assms(7) by simp
  have order: "\<forall>s d vs.
            (\<forall>i<length (arrays s (pred_values p)).
               flatten d (arrays s) [arrays s (pred_values p) ! i] = Some (vs i)) \<longrightarrow>
            flatten d (arrays s) (arrays s (pred_values p)) =
              Some (concat (map vs [0..<length (arrays s (pred_values p))]))"
    using flatten_positions by blast
  show ?thesis using one many order by blast
qed

text \<open>C7 on the container of the example store: a view entered at index 1, then one at index 0, and the flattened values after a match was added in each.\<close>

theorem enterView_inserts_at_index_witness:
  "(\<exists>h'. enterView 1 1 ex_heap = (Some 4, h') \<and> arrays h' 1 = [Ref 2, Ref 4, Ref 3] \<and>
      arrays h' 4 = [] \<and> deep (trackers h' 4) = [ex_pred 4]) \<and>
   arrays (enterViews 1 [1, 0] ex_heap) 1 = [Ref 5, Ref 2, Ref 4, Ref 3] \<and>
   flatten 4
     (arrays (addMatch (ex_pred 4) (Obj 7) (addMatch (ex_pred 5) (Obj 8) (enterViews 1 [1, 0] ex_heap))))
     (arrays (addMatch (ex_pred 4) (Obj 7) (addMatch (ex_pred 5) (Obj 8) (enterViews 1 [1, 0] ex_heap))) 1)
   = Some [Obj 8, Obj 1, Obj 7]"
proof -
  define s0 where "s0 = enterViews 1 [1, 0] ex_heap"
  define s where "s = addMatch (ex_pred 4) (Obj 7) (addMatch (ex_pred 5) (Obj 8) s0)"
  have h: "deep (trackers ex_heap 1) = [ex_pred 1]" "[ex_pred 1] \<noteq> []"
    "distinct (map pred_values [ex_pred 1])"
    "\<forall>q\<in>set [ex_pred 1]. pred_values q < next_array ex_heap" "1 < next_tracker ex_heap"
    "(0::nat) < length [ex_pred 1]" "[ex_pred 1] ! 0 = ex_pred 1"
    by (simp_all add: ex_heap_def ex_pred_def)
  note th = enterView_inserts_at_index[OF h]
  have s0: "arrays s0 = (arrays ex_heap)(1 := [Ref 5, Ref 2, Ref 4, Ref 3])"
    unfolding s0_def by (rule ex_enterViews)
  have s: "arrays s = (arrays ex_heap)(1 := [Ref 5, Ref 2, Ref 4, Ref 3], 5 := [Val (Obj 8)], 4 := [Val (Obj 7)])"
    by (simp add: s_def addMatch_def setDirty_def s0 ex_pred_def ex_heap_def)
  have "\<forall>i<length (arrays s (pred_values (ex_pred 1))).
      flatten 4 (arrays s) [arrays s (pred_values (ex_pred 1)) ! i] =
        Some ([[Obj 8], [Obj 1], [Obj 7], []] ! i)"
    by (simp add: s ex_pred_def ex_heap_def numeral_eq_Suc less_Suc_eq nth_Cons')
  then have f: "flatten 4 (arrays s) (arrays s (pred_values (ex_pred 1))) =
      Some (concat (map (\<lambda>i. [[Obj 8], [Obj 1], [Obj 7], []] ! i) [0..<length (arrays s (pred_values (ex_pred 1)))]))"
    using th[of 0 "[]"] by blast
  have f': "flatten 4 (arrays s) (arrays s 1) = Some [Obj 8, Obj 1, Obj 7]"
    using f by (simp add: s ex_pred_def upt_rec)
  have one: "\<exists>h'. enterView 1 1 ex_heap = (Some 4, h') \<and> arrays h' 1 = [Ref 2, Ref 4, Ref 3] \<and>
      arrays h' 4 = [] \<and> deep (trackers h' 4) = [ex_pred 4]"
    by (simp add: enterView_def ex_heap_def ex_pred_def new_array_def new_LQueries_def
      splice_insert_def splice_start_def Let_def)
  have iv: "insert_views [1, 0] (next_array ex_heap + 0) (length [ex_pred 1])
      (arrays ex_heap (pred_values (ex_pred 1))) = [Ref 5, Ref 2, Ref 4, Ref 3]"
    by (simp add: ex_heap_def ex_pred_def splice_insert_def splice_start_def Let_def)
  have "arrays s0 (pred_values (ex_pred 1)) =
      insert_views [1, 0] (next_array ex_heap + 0) (length [ex_pred 1])
        (arrays ex_heap (pred_values (ex_pred 1)))"
    using th[of 0 "[1, 0]"] unfolding s0_def by blast
  then have many: "arrays s0 1 = [Ref 5, Ref 2, Ref 4, Ref 3]"
    unfolding iv by (simp add: ex_pred_def)
  show ?thesis using one many f' unfolding s_def s0_def by blast
qed

text \<open>
  C8: \<open>child()\<close> returns \<open>null\<close> when the deep chain is empty; the same tracker,
  in an unchanged store, when the deep chain is not empty and the shallow chain is; and
  otherwise a newly allocated tracker whose shallow chain is empty and whose deep chain
  is the parent's, every other tracker, array and query list being left as it was.
\<close>

theorem child_result:
  "(deep (trackers h this) = [] \<longrightarrow> child this h = (None, h)) \<and>
   (deep (trackers h this) \<noteq> [] \<and> shallow (trackers h this) = [] \<longrightarrow>
      child this h = (Some this, h)) \<and>
   (deep (trackers h this) \<noteq> [] \<and> shallow (trackers h this) \<noteq> [] \<longrightarrow>
      (\<exists>h'. child this h = (Some (next_tracker h), h') \<and>
            trackers h' (next_tracker h) = \<lparr>shallow = [], deep = deep (trackers h this)\<rparr> \<and>
            (\<forall>u. u \<noteq> next_tracker h \<longrightarrow> trackers h' u = trackers h u) \<and>
            next_tracker h' = Suc (next_tracker h) \<and>
            arrays h' = arrays h \<and> lists h' = lists h))"
  by (simp add: child_def new_LQueries_def)

text \<open>The three cases of C8 on concrete trackers.\<close>

theorem child_result_witness:
  "child 0 init_heap = (None, init_heap) \<and>
   child 0 ex_heap = (Some 0, ex_heap) \<and>
   (\<exists>h'. child 0 (track 0 0 (BySelector [''foo'']) False None ex_heap) = (Some 4, h') \<and>
      shallow (trackers h' 4) = [] \<and> deep (trackers h' 4) = [ex_pred 0] \<and>
      shallow (trackers h' 0) \<noteq> [])"
  using child_result[of init_heap 0] child_result[of ex_heap 0]
    child_result[of "track 0 0 (BySelector [''foo'']) False None ex_heap" 0]
  by (auto simp: init_heap_def ex_heap_def track_def createPredicate_def)

text \<open>
  C9: for a predicate by type without a read strategy, whose type the scan of the node's
  directive table finds at \<open>i\<close>, the value read is \<open>node.view.data[i]\<close>, appended to the
  predicate's array with the list marked dirty when it is not \<open>null\<close>; and for a
  predicate by type or by selector, when every read yields \<open>null\<close> the store is left as
  it was: nothing is appended and no list is marked dirty.
\<close>

theorem add_predicate_read:
  "(pred_type p = Some T \<and> pred_read p = None \<and>
    geIdxOfMatchingDirective e node (Some T) = Inr (Some i) \<longrightarrow>
      add_predicate e nodeInj p node h =
        Inr (if js_index (data node) i \<noteq> Null then addMatch p (js_index (data node) i) h else h) \<and>
      (\<forall>v. arrays (addMatch p v h) (pred_values p) = arrays h (pred_values p) @ [Val v] \<and>
           dirty (lists (addMatch p v h) (pred_list p)))) \<and>
   (pred_type p = Some T \<and> geIdxOfMatchingDirective e node (Some T) = Inr (Some i) \<and>
    readFromNodeInjector e nodeInj node
       (case pred_read p of Some r \<Rightarrow> Some r | None \<Rightarrow> Some (ReadType T)) (Some (LNum i)) = Inr Null \<longrightarrow>
      add_predicate e nodeInj p node h = Inr h) \<and>
   (pred_type p = None \<and> pred_selector p = Some names \<and> tNode node = Some tn \<and>
    (pred_read p \<noteq> None \<or> \<not> ngDevMode e) \<and>
    (\<forall>name\<in>set names. \<forall>idx. getIdxOfMatchingSelector tn name = Some idx \<longrightarrow>
        readFromNodeInjector e nodeInj node (pred_read p) idx = Inr Null) \<longrightarrow>
      add_predicate e nodeInj p node h = Inr h)"
proof (intro conjI impI)
  assume a: "pred_type p = Some T \<and> pred_read p = None \<and>
    geIdxOfMatchingDirective e node (Some T) = Inr (Some i)"
  then show "add_predicate e nodeInj p node h =
        Inr (if js_index (data node) i \<noteq> Null then addMatch p (js_index (data node) i) h else h)"
    by (simp add: add_predicate_def readFromNodeInjector_def)
  show "\<forall>v. arrays (addMatch p v h) (pred_values p) = arrays h (pred_values p) @ [Val v] \<and>
           dirty (lists (addMatch p v h) (pred_list p))"
    by (simp add: addMatch_def setDirty_def)
next
  assume "pred_type p = Some T \<and> geIdxOfMatchingDirective e node (Some T) = Inr (Some i) \<and>
    readFromNodeInjector e nodeInj node
       (case pred_read p of Some r \<Rightarrow> Some r | None \<Rightarrow> Some (ReadType T)) (Some (LNum i)) = Inr Null"
  then show "add_predicate e nodeInj p node h = Inr h"
    by (simp add: add_predicate_def)
next
  assume a: "pred_type p = None \<and> pred_selector p = Some names \<and> tNode node = Some tn \<and>
    (pred_read p \<noteq> None \<or> \<not> ngDevMode e) \<and>
    (\<forall>name\<in>set names. \<forall>idx. getIdxOfMatchingSelector tn name = Some idx \<longrightarrow>
        readFromNodeInjector e nodeInj node (pred_read p) idx = Inr Null)"
  then have "add_selector e nodeInj p node names h = Inr h"
    by (intro add_selector_null) auto
  with a show "add_predicate e nodeInj p node h = Inr h"
    by (simp add: add_predicate_def)
qed

text \<open>C9 on the example node, on the node whose instance is \<open>null\<close>, and on a selector whose read finds nothing.\<close>

theorem add_predicate_read_witness:
  "(\<exists>h'. add_predicate ex_env 0 (ex_pred 2) ex_node ex_heap = Inr h' \<and>
      arrays h' 2 = [Val (Obj 1), Val (Obj 1)] \<and> dirty (lists h' 0)) \<and>
   add_predicate ex_env 0 (ex_pred 2) ex_null_node ex_heap = Inr ex_heap \<and>
   add_predicate ex_env 0 ex_read_pred ex_node ex_heap = Inr ex_heap"
proof -
  have r1: "readFromNodeInjector ex_env 0 ex_null_node (Some (ReadType 7)) (Some (LNum 0)) = Inr Null"
    by (simp add: readFromNodeInjector_def ex_geIdx_null_node) (simp add: ex_null_node_def js_index_def)
  have r2: "\<forall>name\<in>set [''foo'']. \<forall>idx.
      getIdxOfMatchingSelector \<lparr>localNames = Some [LStr ''foo'', LNum 0]\<rparr> name = Some idx \<longrightarrow>
      readFromNodeInjector ex_env 0 ex_node (pred_read ex_read_pred) idx = Inr Null"
    by (simp add: readFromNodeInjector_def ex_read_pred_def ex_geIdx_absent)
  have d: "js_index (data ex_node) 0 = Obj 1" by (simp add: js_index_def ex_node_def)
  have a1: "add_predicate ex_env 0 (ex_pred 2) ex_node ex_heap = Inr (addMatch (ex_pred 2) (Obj 1) ex_heap)"
    using add_predicate_read[of "ex_pred 2" 7 ex_env ex_node 0 0 ex_heap] ex_geIdx d
    by (simp add: ex_pred_def)
  have a2: "add_predicate ex_env 0 (ex_pred 2) ex_null_node ex_heap = Inr ex_heap"
    using add_predicate_read[of "ex_pred 2" 7 ex_env ex_null_node 0 0 ex_heap] r1 ex_geIdx_null_node
    by (simp add: ex_pred_def js_index_def ex_null_node_def)
  have a3: "add_predicate ex_env 0 ex_read_pred ex_node ex_heap = Inr ex_heap"
    using add_predicate_read[of ex_read_pred _ ex_env ex_node _ 0 ex_heap "[''foo'']"
         "\<lparr>localNames = Some [LStr ''foo'', LNum 0]\<rparr>"] r2
    by (simp add: ex_read_pred_def ex_node_def)
  show ?thesis
    using a1 a2 a3 by (simp add: addMatch_def setDirty_def ex_heap_def ex_pred_def)
qed

text \<open>
  C10: on a query list whose \<open>_values\<close> are empty \<open>first\<close> and \<open>last\<close> are
  \<open>null\<close>; otherwise \<open>first\<close> is the value at index 0 and \<open>last\<close> the value at
  the final index.
\<close>

theorem first_last_result:
  "(ql_values q = [] \<longrightarrow> first q = Null \<and> last_q q = Null) \<and>
   (ql_values q \<noteq> [] \<longrightarrow> first q = hd (ql_values q) \<and> last_q q = last (ql_values q))"
  by (simp add: first_def last_q_def Let_def hd_conv_nth last_conv_nth)

text \<open>C10 on an empty list, a list of one value and a list of three.\<close>

theorem first_last_result_witness:
  "first (lists init_heap 0) = Null \<and> last_q (lists init_heap 0) = Null \<and>
   first (lists ex_heap 0) = Obj 1 \<and> last_q (lists ex_heap 0) = Obj 1 \<and>
   first \<lparr>dirty = False, changes = 1, ql_values = [Obj 1, Undefined, Obj 3], ql_valuesTree = 0\<rparr> = Obj 1 \<and>
   last_q \<lparr>dirty = False, changes = 1, ql_values = [Obj 1, Undefined, Obj 3], ql_valuesTree = 0\<rparr> = Obj 3"
  using first_last_result[of "lists init_heap 0"] first_last_result[of "lists ex_heap 0"]
    first_last_result[of "\<lparr>dirty = False, changes = 1, ql_values = [Obj 1, Undefined, Obj 3], ql_valuesTree = 0\<rparr>"]
  by (simp add: init_heap_def ex_heap_def)

end
